theory Spec2Isabelle
  imports Main "HOL-Library.Word"
begin

unbundle bit_operations_syntax

section \<open>The STK500v2 bootloader (stk500boot.c)\<close>

text \<open>
  The bootloader is one function, \<open>main\<close>: an outer loop that collects the bytes of one
  message with a small state machine, interprets the message and sends the answer.
  The embedding follows the build that the file selects with its own \<open>#define\<close>s:
  \<open>ALWAYS_WAIT_FOR_PROGRAMMER\<close>, \<open>ENABLE_LEAVE_BOOTLADER\<close> and
  \<open>REMOVE_PROGRAM_LOCK_BIT_SUPPORT\<close> are defined, \<open>REMOVE_CMD_SPI_MULTI\<close> is not.
  The address variable is the 16-bit one (\<open>address_t = uint16_t\<close>, the branch taken when
  the device has no \<open>RAMPZ\<close> register); \<open>unsigned int\<close> is 16 bits wide on the AVR.
\<close>

type_synonym byte = "8 word"
type_synonym word16 = "16 word"

subsection \<open>Constants of command.h\<close>

text \<open>
  Modelled from the spec: the header command.h is not among the sources. The spec fixes the
  start marker \<open>0x1B\<close>, the token \<open>0x0E\<close>, the sign-on command \<open>0x01\<close> and the status-OK
  byte \<open>0x00\<close>, and says that the remaining command, status and parameter codes are the
  numeric assignments of the STK500v2 protocol (Atmel application note AVR068), which are
  the ones below.
\<close>

definition MESSAGE_START :: byte where "MESSAGE_START = 0x1B"
definition TOKEN :: byte where "TOKEN = 0x0E"

definition CMD_SIGN_ON :: byte where "CMD_SIGN_ON = 0x01"
definition CMD_SET_PARAMETER :: byte where "CMD_SET_PARAMETER = 0x02"
definition CMD_GET_PARAMETER :: byte where "CMD_GET_PARAMETER = 0x03"
definition CMD_LOAD_ADDRESS :: byte where "CMD_LOAD_ADDRESS = 0x06"
definition CMD_ENTER_PROGMODE_ISP :: byte where "CMD_ENTER_PROGMODE_ISP = 0x10"
definition CMD_LEAVE_PROGMODE_ISP :: byte where "CMD_LEAVE_PROGMODE_ISP = 0x11"
definition CMD_CHIP_ERASE_ISP :: byte where "CMD_CHIP_ERASE_ISP = 0x12"
definition CMD_PROGRAM_FLASH_ISP :: byte where "CMD_PROGRAM_FLASH_ISP = 0x13"
definition CMD_READ_FLASH_ISP :: byte where "CMD_READ_FLASH_ISP = 0x14"
definition CMD_PROGRAM_EEPROM_ISP :: byte where "CMD_PROGRAM_EEPROM_ISP = 0x15"
definition CMD_READ_EEPROM_ISP :: byte where "CMD_READ_EEPROM_ISP = 0x16"
definition CMD_READ_FUSE_ISP :: byte where "CMD_READ_FUSE_ISP = 0x18"
definition CMD_READ_LOCK_ISP :: byte where "CMD_READ_LOCK_ISP = 0x1A"
definition CMD_READ_SIGNATURE_ISP :: byte where "CMD_READ_SIGNATURE_ISP = 0x1B"
definition CMD_SPI_MULTI :: byte where "CMD_SPI_MULTI = 0x1D"

definition STATUS_CMD_OK :: byte where "STATUS_CMD_OK = 0x00"
definition STATUS_CMD_FAILED :: byte where "STATUS_CMD_FAILED = 0xC0"

definition PARAM_BUILD_NUMBER_LOW :: byte where "PARAM_BUILD_NUMBER_LOW = 0x80"
definition PARAM_BUILD_NUMBER_HIGH :: byte where "PARAM_BUILD_NUMBER_HIGH = 0x81"
definition PARAM_HW_VER :: byte where "PARAM_HW_VER = 0x90"
definition PARAM_SW_MAJOR :: byte where "PARAM_SW_MAJOR = 0x91"
definition PARAM_SW_MINOR :: byte where "PARAM_SW_MINOR = 0x92"

subsection \<open>Constants of stk500boot.c\<close>

definition CMD_PROGRAMMER_TIMEOUT :: byte where "CMD_PROGRAMMER_TIMEOUT = 0x2F"

definition CONFIG_PARAM_BUILD_NUMBER_LOW :: byte where "CONFIG_PARAM_BUILD_NUMBER_LOW = 0"
definition CONFIG_PARAM_BUILD_NUMBER_HIGH :: byte where "CONFIG_PARAM_BUILD_NUMBER_HIGH = 0"
definition CONFIG_PARAM_HW_VER :: byte where "CONFIG_PARAM_HW_VER = 0x0F"
definition CONFIG_PARAM_SW_MAJOR :: byte where "CONFIG_PARAM_SW_MAJOR = 2"
definition CONFIG_PARAM_SW_MINOR :: byte where "CONFIG_PARAM_SW_MINOR = 0x0A"

text \<open>
  The values that the Makefile and the device header give to the build are parameters:
  \<open>BOOTLOADER_ADDRESS\<close> (the byte address where the bootloader starts),
  \<open>SPM_PAGESIZE\<close> (the size of a flash page in bytes) and \<open>SIGNATURE_BYTES\<close>.
\<close>

record config =
  BOOTLOADER_ADDRESS :: word16
  SPM_PAGESIZE :: nat
  SIGNATURE_BYTES :: "32 word"

definition APP_END :: "config \<Rightarrow> word16" where
  "APP_END cfg = BOOTLOADER_ADDRESS cfg - 1"

subsection \<open>The device: flash, EEPROM, fuses\<close>

text \<open>
  The self-programming primitives of avr/boot.h act on the device. A page erase sets every
  byte of the page that holds the address to \<open>0xFF\<close>. A page fill loads one word into the
  temporary page buffer; only the position of the address inside its page selects the
  buffer word. A page write programs the page that holds the address from the buffer
  (programming can only clear bits) and leaves the buffer erased. Every call is also
  logged, in order, in \<open>spm_log\<close>.
\<close>

datatype spm_op = PageErase word16 | PageFill word16 word16 | PageWrite word16

record avr =
  flash :: "word16 \<Rightarrow> byte"
  page_buffer :: "nat \<Rightarrow> word16"
  eeprom :: "word16 \<Rightarrow> byte"
  lock_bits :: byte
  low_fuse :: byte
  high_fuse :: byte
  extended_fuse :: byte
  spm_log :: "spm_op list"

definition page_of :: "config \<Rightarrow> word16 \<Rightarrow> nat" where
  "page_of cfg a = unat a div SPM_PAGESIZE cfg"

definition buffer_word :: "config \<Rightarrow> word16 \<Rightarrow> nat" where
  "buffer_word cfg a = (unat a mod SPM_PAGESIZE cfg) div 2"

definition buffer_byte :: "config \<Rightarrow> avr \<Rightarrow> word16 \<Rightarrow> byte" where
  "buffer_byte cfg hw a =
     (let w = page_buffer hw (buffer_word cfg a)
      in if even (unat a) then ucast w else ucast (drop_bit 8 w))"

definition boot_page_erase :: "config \<Rightarrow> word16 \<Rightarrow> avr \<Rightarrow> avr" where
  "boot_page_erase cfg a hw =
     hw\<lparr>flash := (\<lambda>x. if page_of cfg x = page_of cfg a then 0xFF else flash hw x),
        spm_log := spm_log hw @ [PageErase a]\<rparr>"

definition boot_page_fill :: "config \<Rightarrow> word16 \<Rightarrow> word16 \<Rightarrow> avr \<Rightarrow> avr" where
  "boot_page_fill cfg a d hw =
     hw\<lparr>page_buffer := (page_buffer hw)(buffer_word cfg a := d),
        spm_log := spm_log hw @ [PageFill a d]\<rparr>"

definition boot_page_write :: "config \<Rightarrow> word16 \<Rightarrow> avr \<Rightarrow> avr" where
  "boot_page_write cfg a hw =
     hw\<lparr>flash := (\<lambda>x. if page_of cfg x = page_of cfg a
                      then flash hw x AND buffer_byte cfg hw x else flash hw x),
        page_buffer := (\<lambda>_. 0xFFFF),
        spm_log := spm_log hw @ [PageWrite a]\<rparr>"

definition pgm_read_word_near :: "avr \<Rightarrow> word16 \<Rightarrow> word16" where
  "pgm_read_word_near hw a = push_bit 8 (ucast (flash hw (a + 1))) OR ucast (flash hw a)"

text \<open>
  EEPROM access goes through the registers \<open>EEARL\<close>, \<open>EEARH\<close>, \<open>EEDR\<close> and \<open>EECR\<close>:
  the address is set from the low and the high byte of \<open>address\<close>, then one byte is
  written or read.
\<close>

definition eeprom_write :: "word16 \<Rightarrow> byte \<Rightarrow> avr \<Rightarrow> avr" where
  "eeprom_write a v hw = hw\<lparr>eeprom := (eeprom hw)(a := v)\<rparr>"

definition eeprom_read :: "avr \<Rightarrow> word16 \<Rightarrow> byte" where
  "eeprom_read hw a = eeprom hw a"

subsection \<open>The variables of main\<close>

datatype parseState_t =
  ST_START | ST_GET_SEQ_NUM | ST_MSG_SIZE_1 | ST_MSG_SIZE_2 | ST_GET_TOKEN | ST_GET_DATA
  | ST_GET_CHECK | ST_PROCESS

text \<open>
  \<open>msgBuffer\<close> is an array of 285 bytes. C gives no meaning to an access beyond its end:
  the model records the first such access in \<open>fault\<close>, and the main loop stops there.
  \<open>tx\<close> collects the bytes handed to \<open>sendchar\<close>, in order; \<open>dev\<close> is the device.
\<close>

datatype access = ReadAt nat | WriteAt nat

record state =
  address :: word16
  msgParseState :: parseState_t
  idx :: word16
  checksum :: byte
  seqNum :: byte
  msgLength :: word16
  msgBuffer :: "byte list"
  isLeave :: byte
  dev :: avr
  tx :: "byte list"
  fault :: "access option"

definition sendchar :: "byte \<Rightarrow> state \<Rightarrow> state" where
  "sendchar c s = s\<lparr>tx := tx s @ [c]\<rparr>"

text \<open>
  \<open>recchar\<close> waits for a byte; when none arrives in time it returns
  \<open>CMD_PROGRAMMER_TIMEOUT\<close> in its place.
\<close>

datatype rx = Received byte | TimedOut

fun recchar :: "rx \<Rightarrow> byte" where
  "recchar (Received c) = c"
| "recchar TimedOut = CMD_PROGRAMMER_TIMEOUT"

subsection \<open>The receive state machine\<close>

text \<open>
  One pass through the \<open>switch (msgParseState)\<close> with the received byte \<open>c\<close>. In
  \<open>ST_GET_DATA\<close> the code stores the byte at \<open>msgBuffer[i++]\<close> with no test of \<open>i\<close>
  against the size of the buffer: a store beyond the end leaves the 285 bytes of the
  model as they are and is recorded in \<open>fault\<close>, and the variables of the state machine
  go on as the code updates them.
\<close>

definition parse_byte :: "state \<Rightarrow> byte \<Rightarrow> state" where
  "parse_byte s c =
     (case msgParseState s of
        ST_START \<Rightarrow>
          if c = MESSAGE_START
          then s\<lparr>msgParseState := ST_GET_SEQ_NUM, checksum := MESSAGE_START XOR 0\<rparr>
          else if c = CMD_PROGRAMMER_TIMEOUT
          then s\<lparr>msgBuffer := (msgBuffer s)[0 := CMD_PROGRAMMER_TIMEOUT],
                 msgParseState := ST_PROCESS\<rparr>
          else s
      | ST_GET_SEQ_NUM \<Rightarrow>
          if c = 1 \<or> c = seqNum s
          then s\<lparr>seqNum := c, msgParseState := ST_MSG_SIZE_1, checksum := checksum s XOR c\<rparr>
          else s\<lparr>msgParseState := ST_START\<rparr>
      | ST_MSG_SIZE_1 \<Rightarrow>
          s\<lparr>msgLength := push_bit 8 (ucast c), msgParseState := ST_MSG_SIZE_2,
            checksum := checksum s XOR c\<rparr>
      | ST_MSG_SIZE_2 \<Rightarrow>
          s\<lparr>msgLength := msgLength s OR ucast c, msgParseState := ST_GET_TOKEN,
            checksum := checksum s XOR c\<rparr>
      | ST_GET_TOKEN \<Rightarrow>
          if c = TOKEN
          then s\<lparr>msgParseState := ST_GET_DATA, checksum := checksum s XOR c, idx := 0\<rparr>
          else s\<lparr>msgParseState := ST_START\<rparr>
      | ST_GET_DATA \<Rightarrow>
          let s1 = (if unat (idx s) < 285
                    then s\<lparr>msgBuffer := (msgBuffer s)[unat (idx s) := c]\<rparr>
                    else s\<lparr>fault := (case fault s of
                                        None \<Rightarrow> Some (WriteAt (unat (idx s)))
                                      | Some f \<Rightarrow> Some f)\<rparr>);
              s2 = s1\<lparr>idx := idx s1 + 1, checksum := checksum s1 XOR c\<rparr>
          in if idx s2 = msgLength s2 then s2\<lparr>msgParseState := ST_GET_CHECK\<rparr> else s2
      | ST_GET_CHECK \<Rightarrow>
          if c = checksum s then s\<lparr>msgParseState := ST_PROCESS\<rparr>
          else s\<lparr>msgParseState := ST_START\<rparr>
      | ST_PROCESS \<Rightarrow> s)"

subsection \<open>The command handlers\<close>

definition signature_byte :: "config \<Rightarrow> byte \<Rightarrow> byte" where
  "signature_byte cfg signatureIndex =
     (if signatureIndex = 0 then ucast (drop_bit 16 (SIGNATURE_BYTES cfg) AND 0xFF)
      else if signatureIndex = 1 then ucast (drop_bit 8 (SIGNATURE_BYTES cfg) AND 0xFF)
      else ucast (SIGNATURE_BYTES cfg AND 0xFF))"

definition get_parameter :: "byte \<Rightarrow> byte" where
  "get_parameter param =
     (if param = PARAM_BUILD_NUMBER_LOW then CONFIG_PARAM_BUILD_NUMBER_LOW
      else if param = PARAM_BUILD_NUMBER_HIGH then CONFIG_PARAM_BUILD_NUMBER_HIGH
      else if param = PARAM_HW_VER then CONFIG_PARAM_HW_VER
      else if param = PARAM_SW_MAJOR then CONFIG_PARAM_SW_MAJOR
      else if param = PARAM_SW_MINOR then CONFIG_PARAM_SW_MINOR
      else 0)"

text \<open>The 16-bit size in bytes 1 and 2 of a program or read command.\<close>

definition size_field :: "byte list \<Rightarrow> word16" where
  "size_field buf = push_bit 8 (ucast (buf ! 1)) OR ucast (buf ! 2)"

text \<open>
  The loops of the program and read commands are \<open>do ... while (size)\<close> loops: the body
  runs before the test. \<open>p\<close> is the position of the pointer \<open>p\<close> in \<open>msgBuffer\<close>.
\<close>

function write_flash_loop :: "config \<Rightarrow> nat \<Rightarrow> word16 \<Rightarrow> state \<Rightarrow> state" where
  "write_flash_loop cfg p sz s =
     (if 285 \<le> p then s\<lparr>fault := Some (ReadAt p)\<rparr>
      else if 285 \<le> p + 1 then s\<lparr>fault := Some (ReadAt (p + 1))\<rparr>
      else
        let lowByte = msgBuffer s ! p;
            highByte = msgBuffer s ! (p + 1);
            data = push_bit 8 (ucast highByte) OR ucast lowByte;
            s' = s\<lparr>dev := boot_page_fill cfg (address s) data (dev s),
                   address := address s + 2\<rparr>
        in if sz - 2 \<noteq> 0 then write_flash_loop cfg (p + 2) (sz - 2) s' else s')"
  by pat_completeness auto
termination
  by (relation "measure (\<lambda>(cfg, p, sz, s). 286 - p)") auto

function write_eeprom_loop :: "nat \<Rightarrow> word16 \<Rightarrow> state \<Rightarrow> state" where
  "write_eeprom_loop p sz s =
     (if 285 \<le> p then s\<lparr>address := address s + 1, fault := Some (ReadAt p)\<rparr>
      else
        let s' = s\<lparr>dev := eeprom_write (address s) (msgBuffer s ! p) (dev s),
                   address := address s + 1\<rparr>
        in if sz - 1 \<noteq> 0 then write_eeprom_loop (p + 1) (sz - 1) s' else s')"
  by pat_completeness auto
termination
  by (relation "measure (\<lambda>(p, sz, s). 285 - p)") auto

function read_flash_loop :: "nat \<Rightarrow> word16 \<Rightarrow> state \<Rightarrow> state \<times> nat" where
  "read_flash_loop p sz s =
     (let data = pgm_read_word_near (dev s) (address s)
      in if 285 \<le> p then (s\<lparr>fault := Some (WriteAt p)\<rparr>, p)
         else if 285 \<le> p + 1
         then (s\<lparr>msgBuffer := (msgBuffer s)[p := ucast data],
                 fault := Some (WriteAt (p + 1))\<rparr>, p + 1)
         else
           let s' = s\<lparr>msgBuffer := (msgBuffer s)[p := ucast data,
                                                  p + 1 := ucast (drop_bit 8 data)],
                      address := address s + 2\<rparr>
           in if sz - 2 \<noteq> 0 then read_flash_loop (p + 2) (sz - 2) s' else (s', p + 2))"
  by pat_completeness auto
termination
  by (relation "measure (\<lambda>(p, sz, s). 286 - p)") auto

function read_eeprom_loop :: "nat \<Rightarrow> word16 \<Rightarrow> state \<Rightarrow> state \<times> nat" where
  "read_eeprom_loop p sz s =
     (if 285 \<le> p then (s\<lparr>address := address s + 1, fault := Some (WriteAt p)\<rparr>, p)
      else
        let s' = s\<lparr>msgBuffer := (msgBuffer s)[p := eeprom_read (dev s) (address s)],
                   address := address s + 1\<rparr>
        in if sz - 1 \<noteq> 0 then read_eeprom_loop (p + 1) (sz - 1) s' else (s', p + 1))"
  by pat_completeness auto
termination
  by (relation "measure (\<lambda>(p, sz, s). 285 - p)") auto

definition program_flash :: "config \<Rightarrow> state \<Rightarrow> state" where
  "program_flash cfg s =
     (let sz = size_field (msgBuffer s);
          tempaddress = address s
      in if address s < APP_END cfg
         then
           let s1 = s\<lparr>dev := boot_page_erase cfg (address s) (dev s)\<rparr>;
               s2 = write_flash_loop cfg 10 sz s1
           in if fault s2 = None
              then s2\<lparr>dev := boot_page_write cfg tempaddress (dev s2)\<rparr>
              else s2
         else s)"

definition program_eeprom :: "state \<Rightarrow> state" where
  "program_eeprom s = write_eeprom_loop 10 (size_field (msgBuffer s)) s"

definition cmd_program :: "config \<Rightarrow> state \<Rightarrow> state" where
  "cmd_program cfg s =
     (let s' = (if msgBuffer s ! 0 = CMD_PROGRAM_FLASH_ISP then program_flash cfg s
                else program_eeprom s)
      in if fault s' = None
         then s'\<lparr>msgLength := 2, msgBuffer := (msgBuffer s')[1 := STATUS_CMD_OK]\<rparr>
         else s')"

definition cmd_read :: "state \<Rightarrow> state" where
  "cmd_read s =
     (let sz = size_field (msgBuffer s);
          s1 = s\<lparr>msgLength := sz + 3, msgBuffer := (msgBuffer s)[1 := STATUS_CMD_OK]\<rparr>;
          (s2, p) = (if msgBuffer s ! 0 = CMD_READ_FLASH_ISP then read_flash_loop 2 sz s1
                     else read_eeprom_loop 2 sz s1)
      in if fault s2 \<noteq> None then s2
         else if 285 \<le> p then s2\<lparr>fault := Some (WriteAt p)\<rparr>
         else s2\<lparr>msgBuffer := (msgBuffer s2)[p := STATUS_CMD_OK]\<rparr>)"

text \<open>The \<open>switch (msgBuffer[0])\<close>, case by case in the order of the source.\<close>

definition dispatch :: "config \<Rightarrow> state \<Rightarrow> state" where
  "dispatch cfg s =
     (let b = msgBuffer s; cmd = b ! 0 in
      if cmd = CMD_SPI_MULTI then
        (let answerByte = (if b ! 4 = 0x30 then signature_byte cfg (b ! 6) else 0)
         in s\<lparr>msgLength := 7,
              msgBuffer := b[1 := STATUS_CMD_OK, 2 := 0, 3 := b ! 4, 4 := b ! 5,
                             5 := answerByte, 6 := STATUS_CMD_OK]\<rparr>)
      else if cmd = CMD_SIGN_ON then
        s\<lparr>msgLength := 11,
          msgBuffer := b[1 := STATUS_CMD_OK, 2 := 8, 3 := 0x41, 4 := 0x56, 5 := 0x52,
                         6 := 0x49, 7 := 0x53, 8 := 0x50, 9 := 0x5F, 10 := 0x32]\<rparr>
      else if cmd = CMD_GET_PARAMETER then
        s\<lparr>msgLength := 3, msgBuffer := b[1 := STATUS_CMD_OK, 2 := get_parameter (b ! 1)]\<rparr>
      else if cmd = CMD_LEAVE_PROGMODE_ISP then
        s\<lparr>isLeave := 1, msgLength := 2, msgBuffer := b[1 := STATUS_CMD_OK]\<rparr>
      else if cmd = CMD_ENTER_PROGMODE_ISP \<or> cmd = CMD_SET_PARAMETER then
        s\<lparr>msgLength := 2, msgBuffer := b[1 := STATUS_CMD_OK]\<rparr>
      else if cmd = CMD_READ_SIGNATURE_ISP then
        s\<lparr>msgLength := 4,
          msgBuffer := b[1 := STATUS_CMD_OK, 2 := signature_byte cfg (b ! 4),
                         3 := STATUS_CMD_OK]\<rparr>
      else if cmd = CMD_READ_LOCK_ISP then
        s\<lparr>msgLength := 4,
          msgBuffer := b[1 := STATUS_CMD_OK, 2 := lock_bits (dev s), 3 := STATUS_CMD_OK]\<rparr>
      else if cmd = CMD_READ_FUSE_ISP then
        (let fuseBits = (if b ! 2 = 0x50
                         then (if b ! 3 = 0x08 then extended_fuse (dev s)
                               else low_fuse (dev s))
                         else high_fuse (dev s))
         in s\<lparr>msgLength := 4,
              msgBuffer := b[1 := STATUS_CMD_OK, 2 := fuseBits, 3 := STATUS_CMD_OK]\<rparr>)
      else if cmd = CMD_CHIP_ERASE_ISP then
        s\<lparr>msgLength := 2, msgBuffer := b[1 := STATUS_CMD_OK]\<rparr>
      else if cmd = CMD_LOAD_ADDRESS then
        s\<lparr>address := push_bit 1 (push_bit 8 (ucast (b ! 3)) OR ucast (b ! 4)),
          msgLength := 2, msgBuffer := b[1 := STATUS_CMD_OK]\<rparr>
      else if cmd = CMD_PROGRAM_FLASH_ISP \<or> cmd = CMD_PROGRAM_EEPROM_ISP then
        cmd_program cfg s
      else if cmd = CMD_READ_FLASH_ISP \<or> cmd = CMD_READ_EEPROM_ISP then
        cmd_read s
      else if cmd = CMD_PROGRAMMER_TIMEOUT then
        s\<lparr>isLeave := 2\<rparr>
      else
        s\<lparr>msgLength := 2, msgBuffer := b[1 := STATUS_CMD_FAILED]\<rparr>)"

subsection \<open>The answer\<close>

function send_loop :: "nat \<Rightarrow> state \<Rightarrow> state" where
  "send_loop p s =
     (if msgLength s = 0 then s
      else if 285 \<le> p then s\<lparr>fault := Some (ReadAt p)\<rparr>
      else
        let c = msgBuffer s ! p
        in send_loop (p + 1)
             ((sendchar c s)\<lparr>checksum := checksum s XOR c, msgLength := msgLength s - 1\<rparr>))"
  by pat_completeness auto
termination
  by (relation "measure (\<lambda>(p, s). unat (msgLength s))")
     (auto simp: sendchar_def unat_minus_one unat_gt_0 intro!: diff_less)

definition send_answer :: "state \<Rightarrow> state" where
  "send_answer s =
     (if isLeave s < 2 then
        let s1 = (sendchar MESSAGE_START s)\<lparr>checksum := MESSAGE_START XOR 0\<rparr>;
            s2 = (sendchar (seqNum s1) s1)\<lparr>checksum := checksum s1 XOR seqNum s1\<rparr>;
            c3 = ucast (drop_bit 8 (msgLength s2) AND 0xFF);
            s3 = (sendchar c3 s2)\<lparr>checksum := checksum s2 XOR c3\<rparr>;
            c4 = ucast (msgLength s3 AND 0x00FF);
            s4 = (sendchar c4 s3)\<lparr>checksum := checksum s3 XOR c4\<rparr>;
            s5 = (sendchar TOKEN s4)\<lparr>checksum := checksum s4 XOR TOKEN\<rparr>;
            s6 = send_loop 0 s5
        in if fault s6 = None
           then (sendchar (checksum s6) s6)\<lparr>seqNum := seqNum s6 + 1\<rparr>
           else s6
      else s)"

subsection \<open>The main loop\<close>

text \<open>
  \<open>process\<close> is the part of one pass of \<open>while (!isLeave)\<close> that follows the receive
  state machine: the command, the answer and, when the loop goes on, the reset of the
  state machine at the top of the next pass.
\<close>

definition process :: "config \<Rightarrow> state \<Rightarrow> state" where
  "process cfg s =
     (let s1 = dispatch cfg s;
          s2 = (if fault s1 = None then send_answer s1 else s1)
      in if fault s2 = None \<and> isLeave s2 = 0 then s2\<lparr>msgParseState := ST_START\<rparr> else s2)"

text \<open>
  One received byte. Once \<open>isLeave\<close> is set the loop has ended and no byte is read any
  more; after a fault nothing is defined.
\<close>

definition step :: "config \<Rightarrow> state \<Rightarrow> rx \<Rightarrow> state" where
  "step cfg s ev =
     (if fault s \<noteq> None \<or> isLeave s \<noteq> 0 then s
      else
        let s1 = parse_byte s (recchar ev)
        in if fault s1 = None \<and> msgParseState s1 = ST_PROCESS then process cfg s1 else s1)"

definition run :: "config \<Rightarrow> state \<Rightarrow> rx list \<Rightarrow> state" where
  "run cfg s evs = foldl (step cfg) s evs"

text \<open>The variables as \<open>main\<close> initialises them; the buffer starts with any contents.\<close>

definition initial :: "byte list \<Rightarrow> avr \<Rightarrow> state" where
  "initial buf hw =
     \<lparr>address = 0, msgParseState = ST_START, idx = 0, checksum = 0, seqNum = 0,
      msgLength = 0, msgBuffer = buf, isLeave = 0, dev = hw, tx = [], fault = None\<rparr>"

subsection \<open>Messages on the wire\<close>

text \<open>
  A message as the state machine reads it and as the answer is sent: start marker,
  sequence number, length (high byte first), token, the body, and the XOR of all these
  bytes.
\<close>

definition frame_bytes :: "byte \<Rightarrow> byte list \<Rightarrow> byte list" where
  "frame_bytes seq body =
     [MESSAGE_START, seq, ucast (drop_bit 8 (of_nat (length body) :: word16)),
      ucast (of_nat (length body) :: word16), TOKEN] @ body"

definition frame :: "byte \<Rightarrow> byte list \<Rightarrow> byte list" where
  "frame seq body = frame_bytes seq body @ [foldl (XOR) 0 (frame_bytes seq body)]"

text \<open>
  The variables of \<open>main\<close> at the moment the state machine has accepted the message
  \<open>frame seq body\<close>: the body lies at the start of the buffer, over what was there.
\<close>

definition received :: "byte \<Rightarrow> byte list \<Rightarrow> state \<Rightarrow> state" where
  "received seq body s =
     s\<lparr>seqNum := seq, msgLength := of_nat (length body), idx := of_nat (length body),
       checksum := foldl (XOR) 0 (frame_bytes seq body),
       msgBuffer := body @ drop (length body) (msgBuffer s), msgParseState := ST_PROCESS\<rparr>"

subsection \<open>A concrete device\<close>

text \<open>
  A build for a device with 256-byte pages whose bootloader starts at \<open>0xF800\<close>, a
  device whose flash byte at address \<open>a\<close> is the low byte of \<open>a\<close>, and the bootloader
  at its start with a zeroed buffer.
\<close>

definition example_config :: config where
  "example_config =
     \<lparr>BOOTLOADER_ADDRESS = 0xF800, SPM_PAGESIZE = 256, SIGNATURE_BYTES = 0x1E9609\<rparr>"

definition example_device :: avr where
  "example_device =
     \<lparr>flash = (\<lambda>a. ucast a), page_buffer = (\<lambda>_. 0xFFFF), eeprom = (\<lambda>_. 0xFF),
      lock_bits = 0xFF, low_fuse = 0xFF, high_fuse = 0xFF, extended_fuse = 0xFF,
      spm_log = []\<rparr>"

definition example_start :: state where
  "example_start = initial (replicate 285 0) example_device"

subsection \<open>The bytes of the message being read\<close>

text \<open>
  The length field of a message, from its two bytes. The state machine counts the body
  bytes in the 16-bit \<open>i\<close>, from 0, and compares \<open>i\<close> with \<open>msgLength\<close> after each
  increment: a length field \<open>len\<close> other than 0 ends the body after \<open>len\<close> bytes, and
  the length field 0 ends it when \<open>i\<close> has wrapped to 0, after 65536 bytes.
\<close>

definition len16 :: "byte \<Rightarrow> byte \<Rightarrow> word16" where
  "len16 hi lo = push_bit 8 (ucast hi) OR ucast lo"

definition declared_length :: "word16 \<Rightarrow> nat" where
  "declared_length len = (if len = 0 then 65536 else unat len)"

text \<open>
  \<open>frame_seen s bs\<close> relates the variables of the state machine to the bytes \<open>bs\<close>
  received so far: outside the start state, \<open>bs\<close> ends with the part of a message that
  the state stands for, and \<open>checksum\<close> is the XOR of that part.
\<close>

definition frame_seen :: "state \<Rightarrow> byte list \<Rightarrow> bool" where
  "frame_seen s bs =
     (case msgParseState s of
        ST_START \<Rightarrow> True
      | ST_GET_SEQ_NUM \<Rightarrow>
          (\<exists>pre. bs = pre @ [MESSAGE_START]) \<and> checksum s = foldl (XOR) 0 [MESSAGE_START]
      | ST_MSG_SIZE_1 \<Rightarrow>
          (\<exists>pre seq. bs = pre @ [MESSAGE_START, seq]
             \<and> checksum s = foldl (XOR) 0 [MESSAGE_START, seq])
      | ST_MSG_SIZE_2 \<Rightarrow>
          (\<exists>pre seq hi. bs = pre @ [MESSAGE_START, seq, hi]
             \<and> checksum s = foldl (XOR) 0 [MESSAGE_START, seq, hi]
             \<and> msgLength s = push_bit 8 (ucast hi))
      | ST_GET_TOKEN \<Rightarrow>
          (\<exists>pre seq hi lo. bs = pre @ [MESSAGE_START, seq, hi, lo]
             \<and> checksum s = foldl (XOR) 0 [MESSAGE_START, seq, hi, lo]
             \<and> msgLength s = len16 hi lo)
      | ST_GET_DATA \<Rightarrow>
          (\<exists>pre seq hi lo body. bs = pre @ [MESSAGE_START, seq, hi, lo, TOKEN] @ body
             \<and> checksum s = foldl (XOR) 0 ([MESSAGE_START, seq, hi, lo, TOKEN] @ body)
             \<and> msgLength s = len16 hi lo \<and> idx s = of_nat (length body)
             \<and> length body < declared_length (len16 hi lo))
      | ST_GET_CHECK \<Rightarrow>
          (\<exists>pre seq hi lo body. bs = pre @ [MESSAGE_START, seq, hi, lo, TOKEN] @ body
             \<and> checksum s = foldl (XOR) 0 ([MESSAGE_START, seq, hi, lo, TOKEN] @ body)
             \<and> length body = declared_length (len16 hi lo))
      | ST_PROCESS \<Rightarrow> True)"

subsection \<open>Flash contents\<close>

text \<open>The \<open>n\<close> bytes of flash from byte address \<open>a\<close> on; addresses wrap at 16 bits.\<close>

definition flash_bytes :: "avr \<Rightarrow> word16 \<Rightarrow> nat \<Rightarrow> byte list" where
  "flash_bytes hw a n = map (\<lambda>k. flash hw (a + of_nat k)) [0..<n]"

subsection \<open>Between two messages\<close>

text \<open>
  The loop is running and waits for the start of a message: no fault so far, \<open>isLeave\<close>
  not set, the state machine at its start, the buffer in place.
\<close>

definition listening :: "state \<Rightarrow> bool" where
  "listening s \<longleftrightarrow>
     fault s = None \<and> isLeave s = 0 \<and> msgParseState s = ST_START \<and> length (msgBuffer s) = 285"

subsection \<open>Self-programming operations and the bootloader section\<close>

text \<open>
  A self-programming operation is \<open>below_boundary\<close> when the address it is called with
  lies below \<open>BOOTLOADER_ADDRESS\<close>: the address of a page erase, of a page write, and
  of the word write \<open>boot_page_fill(address, data)\<close> alike.
\<close>

fun below_boundary :: "config \<Rightarrow> spm_op \<Rightarrow> bool" where
  "below_boundary cfg (PageErase a) = (a < BOOTLOADER_ADDRESS cfg)"
| "below_boundary cfg (PageWrite a) = (a < BOOTLOADER_ADDRESS cfg)"
| "below_boundary cfg (PageFill a d) = (a < BOOTLOADER_ADDRESS cfg)"

text \<open>
  The word writes of the program loop for the words \<open>ds\<close>, from address \<open>a\<close> on: one
  \<open>boot_page_fill\<close> per word, at addresses two apart.
\<close>

fun fill_ops :: "word16 \<Rightarrow> word16 list \<Rightarrow> spm_op list" where
  "fill_ops a [] = []"
| "fill_ops a (d # ds) = PageFill a d # fill_ops (a + 2) ds"

text \<open>
  The bootloader of the concrete device as it holds a program-flash message of four data
  bytes, with \<open>address\<close> set to \<open>a\<close>.
\<close>

definition example_program_at :: "word16 \<Rightarrow> state" where
  "example_program_at a =
     (received 1 [CMD_PROGRAM_FLASH_ISP, 0x00, 0x04, 0, 0, 0, 0, 0, 0, 0, 0xAA, 0xBB, 0xCC, 0xDD]
        example_start)\<lparr>address := a\<rparr>"

subsection \<open>The words of a program-flash command\<close>

text \<open>
  \<open>words_at buf p k\<close> are the \<open>k\<close> words that the program loop builds from the buffer
  bytes at position \<open>p\<close> on (low byte first); \<open>page_fills\<close> loads a list of words into the
  temporary buffer, at addresses two apart.
\<close>

definition words_at :: "byte list \<Rightarrow> nat \<Rightarrow> nat \<Rightarrow> word16 list" where
  "words_at buf p k =
     map (\<lambda>i. push_bit 8 (ucast (buf ! (p + 2 * i + 1))) OR ucast (buf ! (p + 2 * i))) [0..<k]"

fun page_fills :: "config \<Rightarrow> word16 \<Rightarrow> word16 list \<Rightarrow> avr \<Rightarrow> avr" where
  "page_fills cfg a [] hw = hw"
| "page_fills cfg a (d # ds) hw = page_fills cfg (a + 2) ds (boot_page_fill cfg a d hw)"

text \<open>
  A session with the concrete device: load address \<open>0x0100\<close> (word address \<open>0x80\<close>),
  program four bytes, load the address again, read four bytes.
\<close>

definition example_loaded :: state where
  "example_loaded =
     run example_config example_start
       (map Received (frame 1 [CMD_LOAD_ADDRESS, 0, 0, 0x00, 0x80]))"

definition example_programmed :: state where
  "example_programmed =
     run example_config example_loaded
       (map Received (frame 2 ([CMD_PROGRAM_FLASH_ISP, 0x00, 0x04] @ [0, 0, 0, 0, 0, 0, 0]
                               @ [0xAA, 0xBB, 0xCC, 0xDD])))"

definition example_reloaded :: state where
  "example_reloaded =
     run example_config example_programmed
       (map Received (frame 3 [CMD_LOAD_ADDRESS, 0, 0, 0x00, 0x80]))"

definition example_read_back :: state where
  "example_read_back =
     run example_config example_reloaded
       (map Received (frame 4 [CMD_READ_FLASH_ISP, 0x00, 0x04, 0x20]))"

subsection \<open>The counter of the transfer loops\<close>



text \<open>
  The bootloader of the concrete device after a sign-on message with sequence number 1
  whose last byte is 0 instead of the checksum \<open>0x14\<close>.
\<close>

definition example_corrupted :: state where
  "example_corrupted =
     run example_config example_start (map Received (frame_bytes 1 [CMD_SIGN_ON] @ [0]))"

section \<open>Properties\<close>

lemmas command_defs =
  MESSAGE_START_def TOKEN_def CMD_SIGN_ON_def CMD_SET_PARAMETER_def CMD_GET_PARAMETER_def
  CMD_LOAD_ADDRESS_def CMD_ENTER_PROGMODE_ISP_def CMD_LEAVE_PROGMODE_ISP_def
  CMD_CHIP_ERASE_ISP_def CMD_PROGRAM_FLASH_ISP_def CMD_READ_FLASH_ISP_def
  CMD_PROGRAM_EEPROM_ISP_def CMD_READ_EEPROM_ISP_def CMD_READ_FUSE_ISP_def
  CMD_READ_LOCK_ISP_def CMD_READ_SIGNATURE_ISP_def CMD_SPI_MULTI_def STATUS_CMD_OK_def
  STATUS_CMD_FAILED_def PARAM_BUILD_NUMBER_LOW_def PARAM_BUILD_NUMBER_HIGH_def
  PARAM_HW_VER_def PARAM_SW_MAJOR_def PARAM_SW_MINOR_def

lemmas config_param_defs =
  CONFIG_PARAM_BUILD_NUMBER_LOW_def CONFIG_PARAM_BUILD_NUMBER_HIGH_def
  CONFIG_PARAM_HW_VER_def CONFIG_PARAM_SW_MAJOR_def CONFIG_PARAM_SW_MINOR_def


text \<open>The loops are unfolded by hand, one pass at a time.\<close>

declare write_flash_loop.simps [simp del]
declare write_eeprom_loop.simps [simp del]
declare read_flash_loop.simps [simp del]
declare read_eeprom_loop.simps [simp del]
declare send_loop.simps [simp del]

subsection \<open>The main loop\<close>

lemma step_stopped: "fault s \<noteq> None \<or> isLeave s \<noteq> 0 \<Longrightarrow> step cfg s ev = s"
  by (simp add: step_def)

lemma run_stopped: "fault s \<noteq> None \<or> isLeave s \<noteq> 0 \<Longrightarrow> run cfg s evs = s"
  unfolding run_def by (induction evs) (simp_all add: step_stopped)

lemma run_Nil [simp]: "run cfg s [] = s"
  by (simp add: run_def)

lemma run_Cons [simp]: "run cfg s (ev # evs) = run cfg (step cfg s ev) evs"
  by (simp add: run_def)

lemma run_append: "run cfg s (xs @ ys) = run cfg (run cfg s xs) ys"
  by (simp add: run_def)

lemma example_start_simps:
  "fault example_start = None" "isLeave example_start = 0"
  "msgParseState example_start = ST_START" "length (msgBuffer example_start) = 285"
  by (simp_all add: example_start_def initial_def)

subsection \<open>Bytes and words\<close>

lemma ucast_and_FF: "(ucast ((x :: word16) AND 0xFF) :: byte) = ucast x"
proof -
  have "x AND 0xFF = take_bit 8 x"
    by (simp add: take_bit_eq_mask mask_eq_exp_minus_1)
  then show ?thesis
    by (simp only:) (rule bit_word_eqI, auto simp: bit_simps)
qed

lemma ucast_and_FF32: "(ucast ((x :: 32 word) AND 0xFF) :: byte) = ucast x"
proof -
  have "x AND 0xFF = take_bit 8 x"
    by (simp add: take_bit_eq_mask mask_eq_exp_minus_1)
  then show ?thesis
    by (simp only:) (rule bit_word_eqI, auto simp: bit_simps)
qed

lemma word16_of_bytes:
  "push_bit 8 (ucast (ucast (drop_bit 8 w) :: byte)) OR ucast (ucast w :: byte) = (w :: word16)"
  by (rule bit_word_eqI) (auto simp: bit_simps)

lemma low_byte_of_word:
  "(ucast (push_bit 8 (ucast (h :: byte)) OR (ucast (l :: byte)) :: word16) :: byte) = l"
proof -
  have h: "\<not> bit l (8 + n)" for n
    using bit_imp_le_length [of l "8 + n"] by auto
  show ?thesis
    by (rule bit_word_eqI) (use h in \<open>auto simp: bit_simps\<close>)
qed

lemma high_byte_of_word:
  "(ucast (drop_bit 8 (push_bit 8 (ucast (h :: byte)) OR (ucast (l :: byte)) :: word16)) :: byte) = h"
proof -
  have nb: "\<not> bit l (8 + n)" for n
    using bit_imp_le_length [of l "8 + n"] by auto
  show ?thesis
    by (rule bit_word_eqI) (use nb in \<open>auto simp: bit_simps\<close>)
qed

lemma unat_of_nat16: "n < 65536 \<Longrightarrow> unat (of_nat n :: word16) = n"
  by (simp add: unat_of_nat)

subsection \<open>Receiving a message\<close>

lemma step_parse:
  "fault s = None \<Longrightarrow> isLeave s = 0 \<Longrightarrow> msgParseState (parse_byte s c) \<noteq> ST_PROCESS
   \<Longrightarrow> step cfg s (Received c) = parse_byte s c"
  by (simp add: step_def Let_def)

lemma run_header:
  assumes "fault s = None" "isLeave s = 0" "msgParseState s = ST_START" "seq = 1 \<or> seq = seqNum s"
  shows "run cfg s (map Received [MESSAGE_START, seq, hi, lo, TOKEN]) =
         s\<lparr>seqNum := seq, msgLength := push_bit 8 (ucast hi) OR ucast lo, idx := 0,
           checksum := foldl (XOR) 0 [MESSAGE_START, seq, hi, lo, TOKEN],
           msgParseState := ST_GET_DATA\<rparr>"
  using assms by (auto simp: step_def parse_byte_def Let_def)

lemma run_data:
  assumes "fault s = None" "isLeave s = 0" "msgParseState s = ST_GET_DATA"
    and "length (msgBuffer s) = 285" and "unat (idx s) + length bs = unat (msgLength s)"
    and "bs \<noteq> []" and "unat (msgLength s) \<le> 285"
  shows "run cfg s (map Received bs) =
         s\<lparr>msgBuffer := take (unat (idx s)) (msgBuffer s) @ bs
                          @ drop (unat (idx s) + length bs) (msgBuffer s),
           idx := msgLength s, checksum := foldl (XOR) (checksum s) bs,
           msgParseState := ST_GET_CHECK\<rparr>"
  using assms
proof (induction bs arbitrary: s)
  case Nil
  then show ?case by simp
next
  case (Cons b bs)
  have k: "unat (idx s) < 285" using Cons.prems by simp
  show ?case
  proof (cases "bs = []")
    case True
    have "idx s + 1 = msgLength s"
      using Cons.prems True by (simp add: word_unat_eq_iff unat_word_ariths)
    with Cons.prems True k show ?thesis
      by (simp add: step_def parse_byte_def Let_def upd_conv_take_nth_drop)
  next
    case False
    then have ne: "idx s + 1 \<noteq> msgLength s"
      using Cons.prems by (cases bs) (simp_all add: word_unat_eq_iff unat_word_ariths)
    have i1: "unat (idx s + 1) = unat (idx s) + 1"
      using k by (simp add: unat_word_ariths)
    let ?s' = "s\<lparr>msgBuffer := (msgBuffer s)[unat (idx s) := b], idx := idx s + 1,
                 checksum := checksum s XOR b\<rparr>"
    have st: "step cfg s (Received b) = ?s'"
      using Cons.prems k ne by (simp add: step_def parse_byte_def Let_def)
    have "run cfg ?s' (map Received bs) = ?s'\<lparr>msgBuffer := take (unat (idx ?s')) (msgBuffer ?s') @ bs
                          @ drop (unat (idx ?s') + length bs) (msgBuffer ?s'),
           idx := msgLength ?s', checksum := foldl (XOR) (checksum ?s') bs,
           msgParseState := ST_GET_CHECK\<rparr>"
      using Cons.prems False i1 by (intro Cons.IH) simp_all
    moreover have "take (unat (idx ?s')) (msgBuffer ?s') @ bs
          @ drop (unat (idx ?s') + length bs) (msgBuffer ?s')
        = take (unat (idx s)) (msgBuffer s) @ (b # bs)
          @ drop (unat (idx s) + length (b # bs)) (msgBuffer s)"
      using k Cons.prems(4)
      by (simp add: i1 upd_conv_take_nth_drop add.commute [where 'a = nat])
    ultimately show ?thesis
      by (simp add: st)
  qed
qed


lemma step_check:
  assumes "fault s = None" "isLeave s = 0" "msgParseState s = ST_GET_CHECK"
  shows "step cfg s (Received c) =
         (if c = checksum s then process cfg (s\<lparr>msgParseState := ST_PROCESS\<rparr>)
          else s\<lparr>msgParseState := ST_START\<rparr>)"
  using assms by (simp add: step_def parse_byte_def Let_def)

lemma run_frame_bytes:
  assumes "fault s = None" "isLeave s = 0" "msgParseState s = ST_START"
    and "length (msgBuffer s) = 285" and "seq = 1 \<or> seq = seqNum s"
    and "body \<noteq> []" and "length body \<le> 285"
  shows "run cfg s (map Received (frame_bytes seq body)) =
         (received seq body s)\<lparr>msgParseState := ST_GET_CHECK\<rparr>"
proof -
  define len :: word16 where "len = of_nat (length body)"
  have ulen: "unat len = length body"
    using assms(7) by (simp add: len_def unat_of_nat)
  define s1 where "s1 = s\<lparr>seqNum := seq, msgLength := len, idx := 0,
           checksum := foldl (XOR) 0 [MESSAGE_START, seq, ucast (drop_bit 8 len), ucast len, TOKEN],
           msgParseState := ST_GET_DATA\<rparr>"
  have h: "run cfg s (map Received [MESSAGE_START, seq, ucast (drop_bit 8 len), ucast len, TOKEN]) = s1"
    unfolding s1_def using run_header [OF assms(1,2,3,5), of cfg "ucast (drop_bit 8 len)" "ucast len"]
    by (simp only: word16_of_bytes)
  have d: "run cfg s1 (map Received body) =
         s1\<lparr>msgBuffer := take (unat (idx s1)) (msgBuffer s1) @ body
                          @ drop (unat (idx s1) + length body) (msgBuffer s1),
           idx := msgLength s1, checksum := foldl (XOR) (checksum s1) body,
           msgParseState := ST_GET_CHECK\<rparr>"
    using assms ulen by (intro run_data) (simp_all add: s1_def)
  have "run cfg s (map Received (frame_bytes seq body)) = run cfg s1 (map Received body)"
    unfolding frame_bytes_def len_def [symmetric] map_append run_append h ..
  also note d
  finally show ?thesis
    by (simp add: s1_def received_def len_def frame_bytes_def)
qed

lemma run_frame:
  assumes "fault s = None" "isLeave s = 0" "msgParseState s = ST_START"
    and "length (msgBuffer s) = 285" and "seq = 1 \<or> seq = seqNum s"
    and "body \<noteq> []" and "length body \<le> 285"
  shows "run cfg s (map Received (frame seq body)) = process cfg (received seq body s)"
proof -
  let ?s = "(received seq body s)\<lparr>msgParseState := ST_GET_CHECK\<rparr>"
  have "run cfg s (map Received (frame seq body))
      = step cfg ?s (Received (foldl (XOR) 0 (frame_bytes seq body)))"
    by (simp add: frame_def run_append run_frame_bytes [OF assms])
  also have "\<dots> = process cfg (received seq body s)"
    using assms(1,2) by (subst step_check) (simp_all add: received_def frame_bytes_def)
  finally show ?thesis .
qed

lemma run_bad_frame:
  assumes "fault s = None" "isLeave s = 0" "msgParseState s = ST_START"
    and "length (msgBuffer s) = 285" and "seq = 1 \<or> seq = seqNum s"
    and "body \<noteq> []" and "length body \<le> 285"
    and "c \<noteq> foldl (XOR) 0 (frame_bytes seq body)"
  shows "run cfg s (map Received (frame_bytes seq body @ [c])) =
         (received seq body s)\<lparr>msgParseState := ST_START\<rparr>"
proof -
  let ?s = "(received seq body s)\<lparr>msgParseState := ST_GET_CHECK\<rparr>"
  have "run cfg s (map Received (frame_bytes seq body @ [c])) = step cfg ?s (Received c)"
    by (simp add: run_append run_frame_bytes [OF assms(1-7)])
  also have "\<dots> = (received seq body s)\<lparr>msgParseState := ST_START\<rparr>"
    using assms(1,2,8) by (subst step_check) (simp_all add: received_def frame_bytes_def)
  finally show ?thesis .
qed

lemma send_loop_sends:
  assumes "length (msgBuffer s) = 285" and "p + unat (msgLength s) \<le> 285"
  shows "send_loop p s =
         s\<lparr>tx := tx s @ take (unat (msgLength s)) (drop p (msgBuffer s)),
           checksum := foldl (XOR) (checksum s) (take (unat (msgLength s)) (drop p (msgBuffer s))),
           msgLength := 0\<rparr>"
  using assms
proof (induction p s rule: send_loop.induct)
  case (1 p s)
  show ?case
  proof (cases "msgLength s = 0")
    case True
    then show ?thesis by (subst send_loop.simps) simp
  next
    case False
    then have pos: "0 < unat (msgLength s)" by (simp add: unat_gt_0)
    with "1.prems" have p: "p < 285" by simp
    let ?c = "msgBuffer s ! p"
    let ?s' = "(sendchar ?c s)\<lparr>checksum := checksum s XOR ?c, msgLength := msgLength s - 1\<rparr>"
    have u: "unat (msgLength ?s') = unat (msgLength s) - 1"
      using False by (simp add: unat_minus_one)
    have ih: "send_loop (p + 1) ?s' =
         ?s'\<lparr>tx := tx ?s' @ take (unat (msgLength ?s')) (drop (p + 1) (msgBuffer ?s')),
           checksum := foldl (XOR) (checksum ?s') (take (unat (msgLength ?s')) (drop (p + 1) (msgBuffer ?s'))),
           msgLength := 0\<rparr>"
      using False p "1.prems" u pos
      by (intro "1.IH") (simp_all add: sendchar_def)
    have dr: "drop p (msgBuffer s) = ?c # drop (p + 1) (msgBuffer s)"
      using p "1.prems"(1) by (simp add: Cons_nth_drop_Suc)
    have tk: "take (unat (msgLength s)) (drop p (msgBuffer s))
            = ?c # take (unat (msgLength s) - 1) (drop (p + 1) (msgBuffer s))"
      using pos unfolding dr by (cases "unat (msgLength s)") simp_all
    have "send_loop p s = send_loop (p + 1) ?s'"
      using False p by (subst send_loop.simps) (simp add: Let_def)
    also note ih
    finally show ?thesis
      unfolding tk u by (simp add: sendchar_def)
  qed
qed

lemma send_answer_frame:
  assumes "fault s = None" and "isLeave s < 2" and "length (msgBuffer s) = 285"
    and "unat (msgLength s) \<le> 285"
  shows "send_answer s =
         s\<lparr>tx := tx s @ frame (seqNum s) (take (unat (msgLength s)) (msgBuffer s)),
           checksum := foldl (XOR) 0 (frame_bytes (seqNum s) (take (unat (msgLength s)) (msgBuffer s))),
           msgLength := 0, seqNum := seqNum s + 1\<rparr>"
proof -
  have len: "(of_nat (length (take (unat (msgLength s)) (msgBuffer s))) :: word16) = msgLength s"
    using assms(3,4) by (simp add: min_def)
  show ?thesis
    using assms
    by (simp add: send_answer_def Let_def sendchar_def send_loop_sends frame_def frame_bytes_def
        len ucast_and_FF del: of_nat_min)
qed


subsection \<open>Answers\<close>

lemma process_answer:
  assumes "d = dispatch cfg s" and "fault d = None" and "isLeave d < 2"
    and "length (msgBuffer d) = 285" and "unat (msgLength d) \<le> 285"
  shows "process cfg s =
         d\<lparr>tx := tx d @ frame (seqNum d) (take (unat (msgLength d)) (msgBuffer d)),
           checksum := foldl (XOR) 0 (frame_bytes (seqNum d) (take (unat (msgLength d)) (msgBuffer d))),
           msgLength := 0, seqNum := seqNum d + 1,
           msgParseState := (if isLeave d = 0 then ST_START else msgParseState d)\<rparr>"
  using assms(2-) unfolding process_def assms(1) [symmetric] Let_def
  by (simp add: send_answer_frame)

lemma dispatch_sign_on:
  assumes "msgBuffer s ! 0 = CMD_SIGN_ON"
  shows "dispatch cfg s =
         s\<lparr>msgLength := 11,
           msgBuffer := (msgBuffer s)[1 := STATUS_CMD_OK, 2 := 8, 3 := 0x41, 4 := 0x56, 5 := 0x52,
                         6 := 0x49, 7 := 0x53, 8 := 0x50, 9 := 0x5F, 10 := 0x32]\<rparr>"
  unfolding dispatch_def Let_def assms by (simp add: command_defs)

lemma take_11_updates:
  assumes "length b = 285"
  shows "take 11 (b[1 := x1, 2 := x2, 3 := x3, 4 := x4, 5 := x5, 6 := x6, 7 := x7, 8 := x8,
                    9 := x9, 10 := x10])
         = [b ! 0, x1, x2, x3, x4, x5, x6, x7, x8, x9, x10]"
  using assms by (intro nth_equalityI) (auto simp: nth_list_update less_Suc_eq numeral_eq_Suc)


lemma sign_on_tx:
  assumes "fault s = None" "isLeave s = 0" "msgParseState s = ST_START"
    and "length (msgBuffer s) = 285" and "seq = 1 \<or> seq = seqNum s"
    and "length rest < 285"
  shows "tx (run cfg s (map Received (frame seq (CMD_SIGN_ON # rest)))) =
         tx s @ frame seq [CMD_SIGN_ON, STATUS_CMD_OK, 8, 0x41, 0x56, 0x52, 0x49, 0x53, 0x50,
                           0x5F, 0x32]"
proof -
  define r where "r = received seq (CMD_SIGN_ON # rest) s"
  have r: "fault r = None" "isLeave r = 0" "length (msgBuffer r) = 285"
    "msgBuffer r ! 0 = CMD_SIGN_ON" "seqNum r = seq" "tx r = tx s"
    using assms by (simp_all add: r_def received_def)
  define d where "d = dispatch cfg r"
  have d: "d = r\<lparr>msgLength := 11,
           msgBuffer := (msgBuffer r)[1 := STATUS_CMD_OK, 2 := 8, 3 := 0x41, 4 := 0x56, 5 := 0x52,
                         6 := 0x49, 7 := 0x53, 8 := 0x50, 9 := 0x5F, 10 := 0x32]\<rparr>"
    unfolding d_def by (rule dispatch_sign_on) (rule r)
  have tk: "take (unat (msgLength d)) (msgBuffer d) =
      [CMD_SIGN_ON, STATUS_CMD_OK, 8, 0x41, 0x56, 0x52, 0x49, 0x53, 0x50, 0x5F, 0x32]"
  proof -
    have "unat (msgLength d) = 11" by (simp add: d)
    moreover have "msgBuffer d = (msgBuffer r)[1 := STATUS_CMD_OK, 2 := 8, 3 := 0x41, 4 := 0x56,
        5 := 0x52, 6 := 0x49, 7 := 0x53, 8 := 0x50, 9 := 0x5F, 10 := 0x32]"
      by (simp add: d)
    ultimately show ?thesis
      by (simp only: take_11_updates [OF r(3)] r(4))
  qed
  have "run cfg s (map Received (frame seq (CMD_SIGN_ON # rest))) = process cfg r"
    unfolding r_def using assms by (intro run_frame) simp_all
  also have "tx (process cfg r) = tx d @ frame (seqNum d) (take (unat (msgLength d)) (msgBuffer d))"
    using r by (subst process_answer [OF d_def]) (simp_all add: d)
  finally show ?thesis
    unfolding tk using r by (simp add: d)
qed

subsection \<open>Sign-on\<close>

text \<open>
  Claim C8, as amended. A sign-on message with sequence number 1 whose length field matches
  its body (length 1 and body \<open>[0x01]\<close>, or length 2 and one more body byte), followed
  by the matching checksum, is answered with \<open>0x1B, 0x01, 0x00, 0x0B, 0x0E\<close>, the
  command byte \<open>0x01\<close>, status-OK \<open>0x00\<close>, the length 8, the characters of
  \<open>AVRISP_2\<close> and the checksum \<open>0x74\<close>.
\<close>

theorem sign_on_answer:
  assumes "fault s = None" and "isLeave s = 0" and "msgParseState s = ST_START"
    and "length (msgBuffer s) = 285"
  shows "tx (run cfg s (map Received [0x1B, 0x01, 0x00, 0x01, 0x0E, 0x01, 0x14])) =
           tx s @ [0x1B, 0x01, 0x00, 0x0B, 0x0E, 0x01, 0x00, 0x08,
                   0x41, 0x56, 0x52, 0x49, 0x53, 0x50, 0x5F, 0x32, 0x74]
         \<and> tx (run cfg s (map Received [0x1B, 0x01, 0x00, 0x02, 0x0E, 0x01, x, 0x17 XOR x])) =
           tx s @ [0x1B, 0x01, 0x00, 0x0B, 0x0E, 0x01, 0x00, 0x08,
                   0x41, 0x56, 0x52, 0x49, 0x53, 0x50, 0x5F, 0x32, 0x74]"
proof -
  have f1: "[0x1B, 0x01, 0x00, 0x01, 0x0E, 0x01, 0x14] = frame 1 (CMD_SIGN_ON # [])"
    by (simp add: frame_def frame_bytes_def command_defs)
  have f2: "[0x1B, 0x01, 0x00, 0x02, 0x0E, 0x01, x, 0x17 XOR x] = frame 1 (CMD_SIGN_ON # [x])"
    by (simp add: frame_def frame_bytes_def command_defs)
  have a: "frame 1 [CMD_SIGN_ON, STATUS_CMD_OK, 8, 0x41, 0x56, 0x52, 0x49, 0x53, 0x50, 0x5F, 0x32]
         = [0x1B, 0x01, 0x00, 0x0B, 0x0E, 0x01, 0x00, 0x08,
            0x41, 0x56, 0x52, 0x49, 0x53, 0x50, 0x5F, 0x32, 0x74]"
    by (simp add: frame_def frame_bytes_def command_defs)
  show ?thesis
    unfolding f1 f2 using assms by (simp add: sign_on_tx a)
qed

theorem sign_on_answer_witness:
  "tx (run example_config example_start (map Received [0x1B, 0x01, 0x00, 0x01, 0x0E, 0x01, 0x14])) =
           [0x1B, 0x01, 0x00, 0x0B, 0x0E, 0x01, 0x00, 0x08,
                   0x41, 0x56, 0x52, 0x49, 0x53, 0x50, 0x5F, 0x32, 0x74]
   \<and> tx (run example_config example_start
          (map Received [0x1B, 0x01, 0x00, 0x02, 0x0E, 0x01, 0x00, 0x17])) =
           [0x1B, 0x01, 0x00, 0x0B, 0x0E, 0x01, 0x00, 0x08,
                   0x41, 0x56, 0x52, 0x49, 0x53, 0x50, 0x5F, 0x32, 0x74]"
proof -
  have t: "tx example_start = []" by (simp add: example_start_def initial_def)
  note sign_on_answer [OF example_start_simps, of example_config 0]
  then show ?thesis by (simp add: t)
qed

text \<open>
  The bytes of the claim as it stands declare a body of two bytes and carry one: the byte
  meant as checksum is stored as the second body byte, the state machine goes on waiting
  for a checksum, and nothing is answered.
\<close>

theorem sign_on_scenario_counterexample:
  "foldl (XOR) 0 [0x1B, 0x01, 0x00, 0x02, 0x0E, 0x01] = (0x17 :: byte)
   \<and> tx (run example_config example_start
          (map Received [0x1B, 0x01, 0x00, 0x02, 0x0E, 0x01, 0x17])) = []
   \<and> msgParseState (run example_config example_start
          (map Received [0x1B, 0x01, 0x00, 0x02, 0x0E, 0x01, 0x17])) = ST_GET_CHECK"
  by (simp add: example_start_def initial_def step_def parse_byte_def Let_def command_defs
      CMD_PROGRAMMER_TIMEOUT_def)

subsection \<open>What the commands and the answer leave alone\<close>

lemma write_flash_loop_frame:
  "seqNum (write_flash_loop cfg p sz s) = seqNum s \<and> tx (write_flash_loop cfg p sz s) = tx s
   \<and> isLeave (write_flash_loop cfg p sz s) = isLeave s
   \<and> msgParseState (write_flash_loop cfg p sz s) = msgParseState s
   \<and> msgBuffer (write_flash_loop cfg p sz s) = msgBuffer s"
proof (induction cfg p sz s rule: write_flash_loop.induct)
  case (1 cfg p sz s)
  show ?case
    by (subst (1 2 3 4 5) write_flash_loop.simps) (use 1 in \<open>simp add: Let_def\<close>)
qed

lemma write_eeprom_loop_frame:
  "seqNum (write_eeprom_loop p sz s) = seqNum s \<and> tx (write_eeprom_loop p sz s) = tx s
   \<and> isLeave (write_eeprom_loop p sz s) = isLeave s
   \<and> msgParseState (write_eeprom_loop p sz s) = msgParseState s
   \<and> msgBuffer (write_eeprom_loop p sz s) = msgBuffer s"
proof (induction p sz s rule: write_eeprom_loop.induct)
  case (1 p sz s)
  show ?case
    by (subst (1 2 3 4 5) write_eeprom_loop.simps) (use 1 in \<open>simp add: Let_def\<close>)
qed

lemma read_flash_loop_frame:
  "seqNum (fst (read_flash_loop p sz s)) = seqNum s \<and> tx (fst (read_flash_loop p sz s)) = tx s
   \<and> isLeave (fst (read_flash_loop p sz s)) = isLeave s
   \<and> msgParseState (fst (read_flash_loop p sz s)) = msgParseState s
   \<and> dev (fst (read_flash_loop p sz s)) = dev s
   \<and> length (msgBuffer (fst (read_flash_loop p sz s))) = length (msgBuffer s)"
proof (induction p sz s rule: read_flash_loop.induct)
  case (1 p sz s)
  show ?case
    by (subst (1 2 3 4 5 6) read_flash_loop.simps) (use 1 in \<open>simp add: Let_def\<close>)
qed

lemma read_eeprom_loop_frame:
  "seqNum (fst (read_eeprom_loop p sz s)) = seqNum s \<and> tx (fst (read_eeprom_loop p sz s)) = tx s
   \<and> isLeave (fst (read_eeprom_loop p sz s)) = isLeave s
   \<and> msgParseState (fst (read_eeprom_loop p sz s)) = msgParseState s
   \<and> dev (fst (read_eeprom_loop p sz s)) = dev s
   \<and> length (msgBuffer (fst (read_eeprom_loop p sz s))) = length (msgBuffer s)"
proof (induction p sz s rule: read_eeprom_loop.induct)
  case (1 p sz s)
  show ?case
    by (subst (1 2 3 4 5 6) read_eeprom_loop.simps) (use 1 in \<open>simp add: Let_def\<close>)
qed

lemma cmd_program_frame:
  "seqNum (cmd_program cfg s) = seqNum s \<and> tx (cmd_program cfg s) = tx s
   \<and> msgParseState (cmd_program cfg s) = msgParseState s
   \<and> isLeave (cmd_program cfg s) = isLeave s
   \<and> length (msgBuffer (cmd_program cfg s)) = length (msgBuffer s)"
  by (simp add: cmd_program_def program_flash_def program_eeprom_def Let_def
      write_flash_loop_frame write_eeprom_loop_frame)

lemma cmd_read_frame:
  "seqNum (cmd_read s) = seqNum s \<and> tx (cmd_read s) = tx s
   \<and> msgParseState (cmd_read s) = msgParseState s
   \<and> isLeave (cmd_read s) = isLeave s \<and> dev (cmd_read s) = dev s
   \<and> length (msgBuffer (cmd_read s)) = length (msgBuffer s)"
proof -
  let ?s1 = "s\<lparr>msgLength := size_field (msgBuffer s) + 3,
               msgBuffer := (msgBuffer s)[1 := STATUS_CMD_OK]\<rparr>"
  note f = read_flash_loop_frame [of 2 "size_field (msgBuffer s)" ?s1]
  note e = read_eeprom_loop_frame [of 2 "size_field (msgBuffer s)" ?s1]
  show ?thesis
    using f e by (simp add: cmd_read_def Let_def split_beta)
qed

lemma dispatch_frame:
  "seqNum (dispatch cfg s) = seqNum s \<and> tx (dispatch cfg s) = tx s
   \<and> msgParseState (dispatch cfg s) = msgParseState s
   \<and> length (msgBuffer (dispatch cfg s)) = length (msgBuffer s)"
  by (simp add: dispatch_def Let_def cmd_program_frame cmd_read_frame)

lemma send_loop_frame:
  "seqNum (send_loop p s) = seqNum s \<and> isLeave (send_loop p s) = isLeave s
   \<and> msgParseState (send_loop p s) = msgParseState s \<and> dev (send_loop p s) = dev s
   \<and> msgBuffer (send_loop p s) = msgBuffer s \<and> address (send_loop p s) = address s"
proof (induction p s rule: send_loop.induct)
  case (1 p s)
  show ?case
    by (subst (1 2 3 4 5 6) send_loop.simps) (use 1 in \<open>simp add: Let_def sendchar_def\<close>)
qed

lemma send_answer_seqNum:
  "fault (send_answer s) = None \<Longrightarrow> isLeave s < 2 \<Longrightarrow> seqNum (send_answer s) = seqNum s + 1"
  by (simp add: send_answer_def Let_def send_loop_frame sendchar_def split: if_splits)

lemma send_answer_frame':
  "isLeave (send_answer s) = isLeave s \<and> msgParseState (send_answer s) = msgParseState s"
  by (simp add: send_answer_def Let_def send_loop_frame sendchar_def)

lemma process_seqNum:
  assumes "fault (process cfg s) = None" and "isLeave (process cfg s) < 2"
  shows "seqNum (process cfg s) = seqNum s + 1"
proof -
  let ?d = "dispatch cfg s"
  have fd: "fault ?d = None"
    using assms(1) by (auto simp: process_def Let_def split: if_splits)
  then have fa: "fault (send_answer ?d) = None" and "isLeave (send_answer ?d) < 2"
    using assms by (auto simp: process_def Let_def split: if_splits)
  then have "seqNum (send_answer ?d) = seqNum ?d + 1"
    by (intro send_answer_seqNum) (simp_all add: send_answer_frame')
  then show ?thesis
    using fd by (simp add: process_def Let_def dispatch_frame)
qed


lemma process_continues:
  "fault (process cfg s) = None \<Longrightarrow> isLeave (process cfg s) = 0
   \<Longrightarrow> msgParseState (process cfg s) = ST_START"
  by (auto simp: process_def Let_def split: if_splits)

lemma sequence_byte_accepted:
  assumes "fault s = None" and "isLeave s = 0" and "msgParseState s = ST_GET_SEQ_NUM"
  shows "step cfg s (Received c) =
         (if c = 1 \<or> c = seqNum s
          then s\<lparr>seqNum := c, msgParseState := ST_MSG_SIZE_1, checksum := checksum s XOR c\<rparr>
          else s\<lparr>msgParseState := ST_START\<rparr>)"
  using assms by (simp add: step_def parse_byte_def Let_def)

subsection \<open>Sequence numbers\<close>

text \<open>
  Claim C2, as amended. While the state machine waits for the sequence number, a byte is
  accepted exactly when it is 1 or the stored \<open>seqNum\<close> (\<open>sequence_byte_accepted\<close>).
  The answer increments the stored number. So once a message with sequence number
  \<open>seq\<close> has been answered and the loop goes on, the stored number is \<open>seq + 1\<close>
  (modulo 256), and the sequence byte of the next message is accepted exactly when it is
  1 or \<open>seq + 1\<close>; any other value, the repeated \<open>seq\<close> included, sends the state
  machine back to its start.
\<close>

theorem sequence_number_after_answer:
  assumes "fault s = None" and "isLeave s = 0" and "msgParseState s = ST_START"
    and "length (msgBuffer s) = 285" and "seq = 1 \<or> seq = seqNum s"
    and "body \<noteq> []" and "length body \<le> 285"
    and "s' = run cfg s (map Received (frame seq body))"
    and "fault s' = None" and "isLeave s' = 0"
  shows "seqNum s' = seq + 1
         \<and> msgParseState (run cfg s' [Received MESSAGE_START, Received c]) =
             (if c = 1 \<or> c = seq + 1 then ST_MSG_SIZE_1 else ST_START)"
proof -
  have p: "s' = process cfg (received seq body s)"
    unfolding assms(8) using assms(1-7) by (rule run_frame)
  have n: "seqNum s' = seq + 1"
    using assms(9,10) unfolding p by (subst process_seqNum) (simp_all add: received_def)
  have st: "msgParseState s' = ST_START"
    using assms(9,10) unfolding p by (rule process_continues)
  let ?s1 = "s'\<lparr>msgParseState := ST_GET_SEQ_NUM, checksum := MESSAGE_START XOR 0\<rparr>"
  have "step cfg s' (Received MESSAGE_START) = ?s1"
    using assms(9,10) st by (simp add: step_def parse_byte_def Let_def)
  moreover have "msgParseState (step cfg ?s1 (Received c)) =
      (if c = 1 \<or> c = seqNum s' then ST_MSG_SIZE_1 else ST_START)"
    using assms(9,10) by (subst sequence_byte_accepted) simp_all
  ultimately show ?thesis
    using n by simp
qed

theorem sequence_number_after_answer_witness:
  "seqNum (run example_config example_start (map Received (frame 1 [CMD_SIGN_ON]))) = 2
   \<and> msgParseState (run example_config
         (run example_config example_start (map Received (frame 1 [CMD_SIGN_ON])))
         [Received MESSAGE_START, Received 2]) = ST_MSG_SIZE_1"
proof -
  have f: "fault (run example_config example_start (map Received (frame 1 [CMD_SIGN_ON]))) = None"
    by code_simp
  have l: "isLeave (run example_config example_start (map Received (frame 1 [CMD_SIGN_ON]))) = 0"
    by code_simp
  have b: "[CMD_SIGN_ON] \<noteq> []" "length [CMD_SIGN_ON] \<le> 285" "(1 :: byte) = 1 \<or> 1 = seqNum example_start"
    by simp_all
  note sequence_number_after_answer [OF example_start_simps b(3) b(1) b(2) refl f l, of 2]
  then show ?thesis by simp
qed

text \<open>
  After the messages 1 and 2 have been answered, the sequence byte 2 of a repeated
  message is rejected and the byte 3 is accepted.
\<close>

theorem duplicate_sequence_number_counterexample:
  "seqNum (run example_config example_start
       (map Received (frame 1 [CMD_SIGN_ON] @ frame 2 [CMD_SIGN_ON]))) = 3
   \<and> msgParseState (run example_config example_start
       (map Received (frame 1 [CMD_SIGN_ON] @ frame 2 [CMD_SIGN_ON] @ [MESSAGE_START])))
       = ST_GET_SEQ_NUM
   \<and> msgParseState (run example_config example_start
       (map Received (frame 1 [CMD_SIGN_ON] @ frame 2 [CMD_SIGN_ON] @ [MESSAGE_START, 2])))
       = ST_START
   \<and> msgParseState (run example_config example_start
       (map Received (frame 1 [CMD_SIGN_ON] @ frame 2 [CMD_SIGN_ON] @ [MESSAGE_START, 3])))
       = ST_MSG_SIZE_1"
  by code_simp

subsection \<open>A wrong checksum\<close>

text \<open>
  Claim C4, as amended. Take a message whose start marker, sequence byte and token are
  accepted, whose body has the declared length (between 1 and 285), and whose last byte
  is not the XOR of the bytes before it. Nothing is sent, no command is run (address and
  device are as before), the state machine is back at its start, and the stored sequence
  number is the sequence byte of that message (the old value when the message carried
  it, 1 when the message carried 1). A following correct message with the same sequence
  number is then accepted: its body lies at the start of the buffer when the command
  switch runs, and when \<open>d\<close>, the outcome of the command switch, is one that is answered
  (no access beyond the buffer, an answer of at most 285 bytes), the answer sent is the
  message with that sequence number and the first \<open>msgLength\<close> bytes of the buffer as its
  body, the stored sequence number becomes that number plus 1, and address and device
  are as the command left them.
\<close>

theorem corrupted_checksum_discarded:
  assumes "fault s = None" and "isLeave s = 0" and "msgParseState s = ST_START"
    and "length (msgBuffer s) = 285" and "seq = 1 \<or> seq = seqNum s"
    and "body \<noteq> []" and "length body \<le> 285"
    and "c \<noteq> foldl (XOR) 0 (frame_bytes seq body)"
    and "s' = run cfg s (map Received (frame_bytes seq body @ [c]))"
    and "body' \<noteq> []" and "length body' \<le> 285"
    and "d = dispatch cfg (received seq body' s')"
    and "fault d = None" and "isLeave d < 2" and "unat (msgLength d) \<le> 285"
    and "s'' = run cfg s' (map Received (frame seq body'))"
  shows "tx s' = tx s \<and> seqNum s' = seq \<and> msgParseState s' = ST_START
         \<and> fault s' = None \<and> isLeave s' = 0 \<and> address s' = address s \<and> dev s' = dev s
         \<and> take (length body') (msgBuffer (received seq body' s')) = body'
         \<and> tx s'' = tx s @ frame seq (take (unat (msgLength d)) (msgBuffer d))
         \<and> seqNum s'' = seq + 1 \<and> fault s'' = None
         \<and> address s'' = address d \<and> dev s'' = dev d \<and> isLeave s'' = isLeave d
         \<and> msgParseState s'' = (if isLeave d = 0 then ST_START else ST_PROCESS)"
proof -
  have s': "s' = (received seq body s)\<lparr>msgParseState := ST_START\<rparr>"
    unfolding assms(9) using assms(1-8) by (rule run_bad_frame)
  have ok: "fault s' = None" "isLeave s' = 0" "msgParseState s' = ST_START"
    "length (msgBuffer s') = 285" "seq = 1 \<or> seq = seqNum s'" "tx s' = tx s"
    "seqNum s' = seq" "address s' = address s" "dev s' = dev s"
    using assms(1-7) by (simp_all add: s' received_def)
  define r where "r = received seq body' s'"
  have r: "seqNum r = seq" "tx r = tx s" "msgParseState r = ST_PROCESS"
    "length (msgBuffer r) = 285" "take (length body') (msgBuffer r) = body'"
    using ok assms(11) by (simp_all add: r_def received_def)
  note df = dispatch_frame [of cfg r, folded r_def assms(12)]
  have d: "seqNum d = seq" "tx d = tx s" "msgParseState d = ST_PROCESS"
    "length (msgBuffer d) = 285"
    using df r unfolding assms(12) r_def [symmetric] by simp_all
  have "s'' = process cfg r"
    unfolding assms(16) r_def using ok(1-5) assms(10,11) by (rule run_frame)
  also have "process cfg r =
         d\<lparr>tx := tx d @ frame (seqNum d) (take (unat (msgLength d)) (msgBuffer d)),
           checksum := foldl (XOR) 0 (frame_bytes (seqNum d) (take (unat (msgLength d)) (msgBuffer d))),
           msgLength := 0, seqNum := seqNum d + 1,
           msgParseState := (if isLeave d = 0 then ST_START else msgParseState d)\<rparr>"
    using assms(12) [folded r_def] assms(13,14) d(4) assms(15) by (rule process_answer)
  finally have s'': "s'' = d\<lparr>tx := tx s @ frame seq (take (unat (msgLength d)) (msgBuffer d)),
           checksum := foldl (XOR) 0 (frame_bytes seq (take (unat (msgLength d)) (msgBuffer d))),
           msgLength := 0, seqNum := seq + 1,
           msgParseState := (if isLeave d = 0 then ST_START else ST_PROCESS)\<rparr>"
    by (simp add: d)
  have a: "tx s' = tx s \<and> seqNum s' = seq \<and> msgParseState s' = ST_START
         \<and> fault s' = None \<and> isLeave s' = 0 \<and> address s' = address s \<and> dev s' = dev s"
    using ok by simp
  have b: "take (length body') (msgBuffer (received seq body' s')) = body'"
    using r(5) by (simp add: r_def)
  have c: "tx s'' = tx s @ frame seq (take (unat (msgLength d)) (msgBuffer d))
         \<and> seqNum s'' = seq + 1 \<and> fault s'' = None
         \<and> address s'' = address d \<and> dev s'' = dev d \<and> isLeave s'' = isLeave d
         \<and> msgParseState s'' = (if isLeave d = 0 then ST_START else ST_PROCESS)"
    using assms(13) by (simp add: s'')
  from a b c show ?thesis by simp
qed

theorem corrupted_checksum_discarded_witness:
  "tx example_corrupted = tx example_start \<and> seqNum example_corrupted = 1
   \<and> msgParseState example_corrupted = ST_START
   \<and> fault example_corrupted = None \<and> isLeave example_corrupted = 0
   \<and> address example_corrupted = address example_start
   \<and> dev example_corrupted = dev example_start
   \<and> take (length [CMD_SIGN_ON]) (msgBuffer (received 1 [CMD_SIGN_ON] example_corrupted))
       = [CMD_SIGN_ON]
   \<and> tx (run example_config example_corrupted (map Received (frame 1 [CMD_SIGN_ON])))
       = tx example_start
         @ frame 1 [CMD_SIGN_ON, STATUS_CMD_OK, 8, 0x41, 0x56, 0x52, 0x49, 0x53, 0x50, 0x5F, 0x32]
   \<and> seqNum (run example_config example_corrupted (map Received (frame 1 [CMD_SIGN_ON])))
       = 2
   \<and> fault (run example_config example_corrupted (map Received (frame 1 [CMD_SIGN_ON]))) = None"
proof -
  let ?d = "dispatch example_config (received 1 [CMD_SIGN_ON] example_corrupted)"
  have b: "(1 :: byte) = 1 \<or> 1 = seqNum example_start" "[CMD_SIGN_ON] \<noteq> []"
    "length [CMD_SIGN_ON] \<le> 285" "(0 :: byte) \<noteq> foldl (XOR) 0 (frame_bytes 1 [CMD_SIGN_ON])"
    by (simp_all add: frame_bytes_def command_defs)
  have d: "fault ?d = None" "isLeave ?d < 2" "unat (msgLength ?d) \<le> 285"
    by code_simp+
  have tk: "take (unat (msgLength ?d)) (msgBuffer ?d)
      = [CMD_SIGN_ON, STATUS_CMD_OK, 8, 0x41, 0x56, 0x52, 0x49, 0x53, 0x50, 0x5F, 0x32]"
    by code_simp
  note t = corrupted_checksum_discarded [OF example_start_simps b example_corrupted_def b(2,3)
      refl d refl]
  from t show ?thesis
    unfolding tk by simp
qed

text \<open>
  With the stored number at 3, a message with sequence byte 1 and a wrong checksum leaves
  the stored number at 1.
\<close>

theorem corrupted_checksum_counterexample:
  "seqNum (run example_config example_start
       (map Received (frame 1 [CMD_SIGN_ON] @ frame 2 [CMD_SIGN_ON]))) = 3
   \<and> foldl (XOR) 0 (frame_bytes 1 [CMD_SIGN_ON]) = 0x14
   \<and> seqNum (run example_config example_start
       (map Received (frame 1 [CMD_SIGN_ON] @ frame 2 [CMD_SIGN_ON]
                      @ frame_bytes 1 [CMD_SIGN_ON] @ [0x15]))) = 1
   \<and> tx (run example_config example_start
       (map Received (frame 1 [CMD_SIGN_ON] @ frame 2 [CMD_SIGN_ON]
                      @ frame_bytes 1 [CMD_SIGN_ON] @ [0x15])))
     = tx (run example_config example_start
       (map Received (frame 1 [CMD_SIGN_ON] @ frame 2 [CMD_SIGN_ON])))"
  by code_simp

subsection \<open>The checksum\<close>

lemma declared_length_le: "declared_length L \<le> 65536" "0 < declared_length L"
  using unsigned_less [of L, where 'a = nat] by (auto simp: declared_length_def unat_gt_0)

lemma of_nat_declared_length: "(of_nat (declared_length L) :: word16) = L"
  by (simp add: declared_length_def)

lemma declared_length_reached:
  assumes "k < declared_length L"
  shows "((of_nat (Suc k) :: word16) = L) = (Suc k = declared_length L)"
proof
  assume "Suc k = declared_length L"
  then show "(of_nat (Suc k) :: word16) = L" by (simp only: of_nat_declared_length)
next
  assume e: "(of_nat (Suc k) :: word16) = L"
  have le: "Suc k \<le> 65536" using assms declared_length_le(1) [of L] by simp
  show "Suc k = declared_length L"
  proof (cases "Suc k = 65536")
    case True
    then have "L = 0" using e by simp
    then show ?thesis using True by (simp add: declared_length_def)
  next
    case False
    then have lt: "Suc k < 65536" using le by simp
    then have "unat (of_nat (Suc k) :: word16) = Suc k"
      by (simp only: unat_of_nat) simp
    then have u: "unat L = Suc k" using e by simp
    then have "L \<noteq> 0" by auto
    then show ?thesis using u by (simp add: declared_length_def)
  qed
qed

lemma frame_seen_parse:
  assumes "frame_seen s bs" and "msgParseState (parse_byte s c) \<noteq> ST_PROCESS"
  shows "frame_seen (parse_byte s c) (bs @ [c])"
proof (cases "msgParseState s")
  case ST_START
  show ?thesis
  proof (cases "c = MESSAGE_START")
    case True
    with ST_START show ?thesis
      by (simp add: parse_byte_def frame_seen_def)
  next
    case False
    with ST_START assms(2) show ?thesis
      by (simp add: parse_byte_def frame_seen_def split: if_splits)
  qed
next
  case ST_GET_SEQ_NUM
  with assms(1) obtain pre where b: "bs = pre @ [MESSAGE_START]"
    and x: "checksum s = foldl (XOR) 0 [MESSAGE_START]"
    by (auto simp: frame_seen_def)
  show ?thesis
  proof (cases "c = 1 \<or> c = seqNum s")
    case True
    then have "parse_byte s c = s\<lparr>seqNum := c, msgParseState := ST_MSG_SIZE_1,
        checksum := checksum s XOR c\<rparr>"
      using ST_GET_SEQ_NUM by (simp add: parse_byte_def)
    moreover have "bs @ [c] = pre @ [MESSAGE_START, c]" by (simp add: b)
    ultimately show ?thesis
      unfolding frame_seen_def using x by (simp del: append.simps) blast?
  next
    case False
    then show ?thesis
      using ST_GET_SEQ_NUM by (simp add: parse_byte_def frame_seen_def)
  qed
next
  case ST_MSG_SIZE_1
  with assms(1) obtain pre seq where b: "bs = pre @ [MESSAGE_START, seq]"
    and x: "checksum s = foldl (XOR) 0 [MESSAGE_START, seq]"
    by (auto simp: frame_seen_def)
  have "parse_byte s c = s\<lparr>msgLength := push_bit 8 (ucast c), msgParseState := ST_MSG_SIZE_2,
            checksum := checksum s XOR c\<rparr>"
    using ST_MSG_SIZE_1 by (simp add: parse_byte_def)
  moreover have "bs @ [c] = pre @ [MESSAGE_START, seq, c]" by (simp add: b)
  ultimately show ?thesis
    unfolding frame_seen_def using x by (simp del: append.simps) blast?
next
  case ST_MSG_SIZE_2
  with assms(1) obtain pre seq hi where b: "bs = pre @ [MESSAGE_START, seq, hi]"
    and x: "checksum s = foldl (XOR) 0 [MESSAGE_START, seq, hi]"
    and l: "msgLength s = push_bit 8 (ucast hi)"
    by (auto simp: frame_seen_def)
  have "parse_byte s c = s\<lparr>msgLength := msgLength s OR ucast c, msgParseState := ST_GET_TOKEN,
            checksum := checksum s XOR c\<rparr>"
    using ST_MSG_SIZE_2 by (simp add: parse_byte_def)
  moreover have "bs @ [c] = pre @ [MESSAGE_START, seq, hi, c]" by (simp add: b)
  moreover have "msgLength s OR ucast c = len16 hi c" by (simp add: l len16_def)
  ultimately show ?thesis
    unfolding frame_seen_def using x by (simp del: append.simps) blast?
next
  case ST_GET_TOKEN
  with assms(1) obtain pre seq hi lo where b: "bs = pre @ [MESSAGE_START, seq, hi, lo]"
    and x: "checksum s = foldl (XOR) 0 [MESSAGE_START, seq, hi, lo]"
    and l: "msgLength s = len16 hi lo"
    by (auto simp: frame_seen_def)
  show ?thesis
  proof (cases "c = TOKEN")
    case True
    have st: "msgParseState (parse_byte s c) = ST_GET_DATA"
      "checksum (parse_byte s c) = checksum s XOR c"
      "msgLength (parse_byte s c) = msgLength s" "idx (parse_byte s c) = 0"
      using ST_GET_TOKEN True by (simp_all add: parse_byte_def)
    have "\<exists>pre' seq' hi' lo' body.
            bs @ [c] = pre' @ [MESSAGE_START, seq', hi', lo', TOKEN] @ body
            \<and> checksum s XOR c = foldl (XOR) 0 ([MESSAGE_START, seq', hi', lo', TOKEN] @ body)
            \<and> msgLength s = len16 hi' lo' \<and> (0 :: word16) = of_nat (length body)
            \<and> length body < declared_length (len16 hi' lo')"
      by (intro exI [of _ pre] exI [of _ seq] exI [of _ hi] exI [of _ lo] exI [of _ "[]"])
         (simp add: b x l True declared_length_le)
    then show ?thesis
      unfolding frame_seen_def by (simp only: st parseState_t.case)
  next
    case False
    then show ?thesis
      using ST_GET_TOKEN by (simp add: parse_byte_def frame_seen_def)
  qed
next
  case ST_GET_DATA
  from assms(1) ST_GET_DATA obtain pre seq hi lo body where
    b: "bs = pre @ [MESSAGE_START, seq, hi, lo, TOKEN] @ body"
    and x: "checksum s = foldl (XOR) 0 ([MESSAGE_START, seq, hi, lo, TOKEN] @ body)"
    and l: "msgLength s = len16 hi lo" and n: "idx s = of_nat (length body)"
    and k: "length body < declared_length (len16 hi lo)"
    by (auto simp: frame_seen_def)
  have b': "bs @ [c] = pre @ [MESSAGE_START, seq, hi, lo, TOKEN] @ (body @ [c])"
    by (simp add: b)
  have x': "checksum s XOR c = foldl (XOR) 0 ([MESSAGE_START, seq, hi, lo, TOKEN] @ (body @ [c]))"
    by (simp add: x)
  have i: "idx s + 1 = of_nat (length (body @ [c]))" by (simp add: n)
  have r: "(idx s + 1 = msgLength s) = (length (body @ [c]) = declared_length (len16 hi lo))"
    using declared_length_reached [OF k] by (simp add: n l add.commute)
  have p: "checksum (parse_byte s c) = checksum s XOR c"
    "msgLength (parse_byte s c) = msgLength s" "idx (parse_byte s c) = idx s + 1"
    "msgParseState (parse_byte s c)
       = (if idx s + 1 = msgLength s then ST_GET_CHECK else ST_GET_DATA)"
    using ST_GET_DATA by (simp_all add: parse_byte_def Let_def)
  show ?thesis
  proof (cases "idx s + 1 = msgLength s")
    case True
    then have "length (body @ [c]) = declared_length (len16 hi lo)" using r by simp
    then show ?thesis
      unfolding frame_seen_def using b' x' p True
      by (simp del: append.simps foldl_append foldl_Cons length_append) blast?
  next
    case False
    then have "length (body @ [c]) \<noteq> declared_length (len16 hi lo)" using r by simp
    then have "length (body @ [c]) < declared_length (len16 hi lo)" using k by simp
    then show ?thesis
      unfolding frame_seen_def using b' x' p False l i
      by (simp del: append.simps foldl_append foldl_Cons length_append of_nat_Suc) blast?
  qed
next
  case ST_GET_CHECK
  with assms(2) show ?thesis
    by (simp add: parse_byte_def frame_seen_def split: if_splits)
next
  case ST_PROCESS
  with assms(2) show ?thesis
    by (simp add: parse_byte_def)
qed





text \<open>
  The same holds in the main loop, over the bytes of all the messages received so far, as
  long as the loop runs.
\<close>

lemma frame_seen_step:
  assumes "fault s = None" and "isLeave s = 0" and "frame_seen s bs"
    and "fault (step cfg s ev) = None" and "isLeave (step cfg s ev) = 0"
  shows "frame_seen (step cfg s ev) (bs @ [recchar ev])"
proof -
  define s1 where "s1 = parse_byte s (recchar ev)"
  show ?thesis
  proof (cases "fault s1 = None \<and> msgParseState s1 = ST_PROCESS")
    case True
    then have "step cfg s ev = process cfg s1"
      using assms(1,2) by (simp add: step_def Let_def s1_def)
    with assms(4,5) have "msgParseState (step cfg s ev) = ST_START"
      by (simp add: process_continues)
    then show ?thesis by (simp add: frame_seen_def)
  next
    case False
    then have eq: "step cfg s ev = s1"
      using assms(1,2) by (auto simp: step_def Let_def s1_def)
    have "fault s1 = None" using assms(4) eq by simp
    with False have "msgParseState s1 \<noteq> ST_PROCESS" by simp
    with assms(3) have "frame_seen s1 (bs @ [recchar ev])"
      unfolding s1_def by (intro frame_seen_parse)
    then show ?thesis by (simp add: eq)
  qed
qed

lemma frame_seen_run:
  assumes "frame_seen s bs" and "fault (run cfg s evs) = None" and "isLeave (run cfg s evs) = 0"
  shows "frame_seen (run cfg s evs) (bs @ map recchar evs)"
  using assms
proof (induction evs arbitrary: s bs)
  case Nil
  then show ?case by simp
next
  case (Cons ev evs)
  show ?case
  proof (cases "fault s \<noteq> None \<or> isLeave s \<noteq> 0")
    case True
    then have "run cfg s (ev # evs) = s" by (rule run_stopped)
    with Cons.prems True show ?thesis by auto
  next
    case False
    let ?s = "step cfg s ev"
    have r: "run cfg s (ev # evs) = run cfg ?s evs" by simp
    have ok: "fault ?s = None \<and> isLeave ?s = 0"
    proof (rule ccontr)
      assume "\<not> (fault ?s = None \<and> isLeave ?s = 0)"
      then have "fault ?s \<noteq> None \<or> isLeave ?s \<noteq> 0" by simp
      then have "run cfg ?s evs = ?s" by (rule run_stopped)
      with Cons.prems(2,3) r \<open>\<not> (fault ?s = None \<and> isLeave ?s = 0)\<close> show False by simp
    qed
    have "frame_seen ?s (bs @ [recchar ev])"
      using False Cons.prems(1) ok by (intro frame_seen_step) simp_all
    then have "frame_seen (run cfg ?s evs) ((bs @ [recchar ev]) @ map recchar evs)"
      using Cons.prems(2,3) r by (intro Cons.IH) simp_all
    then show ?thesis by simp
  qed
qed

lemma run_checksum_is_xor:
  assumes "msgParseState s = ST_START"
    and "s' = run cfg s evs"
    and "fault s' = None" and "isLeave s' = 0" and "msgParseState s' = ST_GET_CHECK"
    and "msgParseState (parse_byte s' c) = ST_PROCESS"
  shows "\<exists>pre seq hi lo body.
           map recchar evs = pre @ [MESSAGE_START, seq, hi, lo, TOKEN] @ body
           \<and> length body = declared_length (len16 hi lo)
           \<and> c = foldl (XOR) 0 ([MESSAGE_START, seq, hi, lo, TOKEN] @ body)"
proof -
  have "frame_seen s []" using assms(1) by (simp add: frame_seen_def)
  then have "frame_seen s' ([] @ map recchar evs)"
    unfolding assms(2) using assms(3,4) unfolding assms(2) by (rule frame_seen_run)
  then obtain pre seq hi lo body where
    b: "map recchar evs = pre @ [MESSAGE_START, seq, hi, lo, TOKEN] @ body"
    and x: "checksum s' = foldl (XOR) 0 ([MESSAGE_START, seq, hi, lo, TOKEN] @ body)"
    and n: "length body = declared_length (len16 hi lo)"
    using assms(5) by (auto simp: frame_seen_def)
  have "c = checksum s'"
    using assms(5,6) by (simp add: parse_byte_def split: if_splits)
  with b x n show ?thesis by blast
qed

subsection \<open>The buffer while a message is read\<close>

lemma run_data_short:
  assumes "fault s = None" "isLeave s = 0" "msgParseState s = ST_GET_DATA"
    and "length (msgBuffer s) = 285" and "unat (idx s) + length bs \<le> 285"
    and "msgLength s = 0 \<or> 285 < unat (msgLength s)"
  shows "run cfg s (map Received bs) =
         s\<lparr>msgBuffer := take (unat (idx s)) (msgBuffer s) @ bs
                          @ drop (unat (idx s) + length bs) (msgBuffer s),
           idx := idx s + of_nat (length bs), checksum := foldl (XOR) (checksum s) bs\<rparr>"
  using assms
proof (induction bs arbitrary: s)
  case Nil
  then show ?case by simp
next
  case (Cons b bs)
  have k: "unat (idx s) < 285" using Cons.prems by simp
  have i1: "unat (idx s + 1) = unat (idx s) + 1"
    using k by (simp add: unat_word_ariths)
  have ne: "idx s + 1 \<noteq> msgLength s"
  proof
    assume "idx s + 1 = msgLength s"
    then have "unat (msgLength s) = unat (idx s) + 1" using i1 by simp
    with Cons.prems(6) k show False by (auto simp: unat_eq_zero)
  qed
  let ?s' = "s\<lparr>msgBuffer := (msgBuffer s)[unat (idx s) := b], idx := idx s + 1,
               checksum := checksum s XOR b\<rparr>"
  have st: "step cfg s (Received b) = ?s'"
    using Cons.prems k ne by (simp add: step_def parse_byte_def Let_def)
  have "run cfg ?s' (map Received bs) =
        ?s'\<lparr>msgBuffer := take (unat (idx ?s')) (msgBuffer ?s') @ bs
                          @ drop (unat (idx ?s') + length bs) (msgBuffer ?s'),
           idx := idx ?s' + of_nat (length bs), checksum := foldl (XOR) (checksum ?s') bs\<rparr>"
    using Cons.prems i1 by (intro Cons.IH) simp_all
  moreover have "take (unat (idx ?s')) (msgBuffer ?s') @ bs
          @ drop (unat (idx ?s') + length bs) (msgBuffer ?s')
        = take (unat (idx s)) (msgBuffer s) @ (b # bs)
          @ drop (unat (idx s) + length (b # bs)) (msgBuffer s)"
    using k Cons.prems(4)
    by (simp add: i1 upd_conv_take_nth_drop add.commute [where 'a = nat])
  moreover have "idx ?s' + of_nat (length bs) = idx s + of_nat (length (b # bs))"
    by simp
  ultimately show ?case
    by (simp add: st)
qed

lemma run_header_len:
  assumes "fault s = None" "isLeave s = 0" "msgParseState s = ST_START" "seq = 1 \<or> seq = seqNum s"
  shows "run cfg s (map Received [MESSAGE_START, seq, ucast (drop_bit 8 len), ucast len, TOKEN]) =
         s\<lparr>seqNum := seq, msgLength := len, idx := 0,
           checksum := foldl (XOR) 0 [MESSAGE_START, seq, ucast (drop_bit 8 len), ucast len, TOKEN],
           msgParseState := ST_GET_DATA\<rparr>"
  using run_header [OF assms, of cfg "ucast (drop_bit 8 len)" "ucast len"]
  by (simp only: word16_of_bytes)

text \<open>
  Claim C3, as amended. The state machine stores body bytes at the positions 0, 1, 2, ...
  of the buffer until their number equals the declared length; it compares with nothing
  else. For a message whose length field is between 1 and 285 and whose body has that
  length, every byte is stored inside the buffer: afterwards the buffer is the body
  followed by the old contents beyond it. When the length field is 0 or more than 285,
  the 286th body byte is written at position 285, past the end of the buffer.
\<close>

theorem buffer_bound_by_declared_length:
  assumes "fault s = None" and "isLeave s = 0" and "msgParseState s = ST_START"
    and "length (msgBuffer s) = 285" and "seq = 1 \<or> seq = seqNum s"
  shows "(body \<noteq> [] \<and> length body \<le> 285 \<longrightarrow>
            fault (run cfg s (map Received (frame_bytes seq body))) = None
            \<and> msgBuffer (run cfg s (map Received (frame_bytes seq body)))
                = body @ drop (length body) (msgBuffer s))
         \<and> ((len = 0 \<or> 285 < unat (len :: word16)) \<and> 286 \<le> length bs \<longrightarrow>
            fault (run cfg s (map Received
                ([MESSAGE_START, seq, ucast (drop_bit 8 len), ucast len, TOKEN] @ bs)))
              = Some (WriteAt 285))"
proof (intro conjI impI)
  assume b: "body \<noteq> [] \<and> length body \<le> 285"
  then have r: "run cfg s (map Received (frame_bytes seq body)) =
         (received seq body s)\<lparr>msgParseState := ST_GET_CHECK\<rparr>"
    using assms by (intro run_frame_bytes) simp_all
  show "fault (run cfg s (map Received (frame_bytes seq body))) = None"
    using assms(1) by (simp add: r received_def)
  show "msgBuffer (run cfg s (map Received (frame_bytes seq body)))
      = body @ drop (length body) (msgBuffer s)"
    by (simp add: r received_def)
next
  assume a: "(len = 0 \<or> 285 < unat len) \<and> 286 \<le> length bs"
  define s1 where "s1 = s\<lparr>seqNum := seq, msgLength := len, idx := 0,
           checksum := foldl (XOR) 0 [MESSAGE_START, seq, ucast (drop_bit 8 len), ucast len, TOKEN],
           msgParseState := ST_GET_DATA\<rparr>"
  have h: "run cfg s (map Received [MESSAGE_START, seq, ucast (drop_bit 8 len), ucast len, TOKEN])
      = s1"
    unfolding s1_def using assms(1,2,3,5) by (rule run_header_len)
  define s2 where "s2 = s1\<lparr>msgBuffer := take (unat (idx s1)) (msgBuffer s1) @ take 285 bs
                          @ drop (unat (idx s1) + length (take 285 bs)) (msgBuffer s1),
           idx := idx s1 + of_nat (length (take 285 bs)),
           checksum := foldl (XOR) (checksum s1) (take 285 bs)\<rparr>"
  have d: "run cfg s1 (map Received (take 285 bs)) = s2"
    unfolding s2_def using assms a by (intro run_data_short) (simp_all add: s1_def)
  have l: "length (take 285 bs) = 285" using a by simp
  have s2: "fault s2 = None" "isLeave s2 = 0" "msgParseState s2 = ST_GET_DATA" "idx s2 = 285"
    using assms(1,2) unfolding s2_def l by (simp_all add: s1_def)
  have f: "fault (step cfg s2 (Received (bs ! 285))) = Some (WriteAt 285)"
    using s2 by (simp add: step_def parse_byte_def Let_def)
  have split: "bs = take 285 bs @ (bs ! 285) # drop 286 bs"
  proof -
    have "285 < length bs" using a by simp
    then have "bs ! 285 # drop (Suc 285) bs = drop 285 bs" by (rule Cons_nth_drop_Suc)
    moreover have "Suc 285 = 286" by simp
    ultimately have "drop 285 bs = bs ! 285 # drop 286 bs" by (simp only:)
    moreover have "bs = take 285 bs @ drop 285 bs" by simp
    ultimately show ?thesis by (simp only:)
  qed
  have "run cfg s (map Received
      ([MESSAGE_START, seq, ucast (drop_bit 8 len), ucast len, TOKEN] @ bs))
      = run cfg (run cfg (run cfg s (map Received
            [MESSAGE_START, seq, ucast (drop_bit 8 len), ucast len, TOKEN]))
          (map Received (take 285 bs))) (map Received (bs ! 285 # drop 286 bs))"
    by (subst split) (simp only: map_append run_append)
  also have "\<dots> = run cfg (step cfg s2 (Received (bs ! 285))) (map Received (drop 286 bs))"
    unfolding h d by (simp only: list.map run_Cons)
  also have "\<dots> = step cfg s2 (Received (bs ! 285))"
    using f by (intro run_stopped) simp
  finally show "fault (run cfg s (map Received
      ([MESSAGE_START, seq, ucast (drop_bit 8 len), ucast len, TOKEN] @ bs))) = Some (WriteAt 285)"
    using f by simp
qed

theorem buffer_bound_by_declared_length_witness:
  "fault (run example_config example_start (map Received (frame_bytes 1 [CMD_SIGN_ON]))) = None
   \<and> msgBuffer (run example_config example_start (map Received (frame_bytes 1 [CMD_SIGN_ON])))
       = [CMD_SIGN_ON] @ drop (length [CMD_SIGN_ON]) (msgBuffer example_start)
   \<and> fault (run example_config example_start (map Received
         ([MESSAGE_START, 1, ucast (drop_bit 8 (0x011E :: word16)), ucast (0x011E :: word16), TOKEN]
          @ replicate 286 0))) = Some (WriteAt 285)"
proof -
  have b: "(1 :: byte) = 1 \<or> 1 = seqNum example_start" by simp
  note t = buffer_bound_by_declared_length [OF example_start_simps b,
      of "[CMD_SIGN_ON]" example_config "0x011E" "replicate 286 0"]
  have c: "[CMD_SIGN_ON] \<noteq> [] \<and> length [CMD_SIGN_ON] \<le> 285" by simp
  have d: "((0x011E :: word16) = 0 \<or> 285 < unat (0x011E :: word16))
      \<and> 286 \<le> length (replicate 286 (0 :: byte))" by simp
  note p1 = t [THEN conjunct1, THEN mp, OF c]
  note p2 = t [THEN conjunct2, THEN mp, OF d]
  show ?thesis
    using conjI [OF p1 p2] by (simp only: conj_assoc)
qed

text \<open>A message that declares 286 bytes and carries them overruns the buffer.\<close>

theorem buffer_overrun_counterexample:
  "fault (run example_config example_start
      (map Received ([0x1B, 0x01, 0x01, 0x1E, 0x0E] @ replicate 286 0))) = Some (WriteAt 285)"
  by code_simp

subsection \<open>Reading flash\<close>

lemma flash_bytes_0 [simp]: "flash_bytes hw a 0 = []"
  by (simp add: flash_bytes_def)

lemma length_flash_bytes [simp]: "length (flash_bytes hw a n) = n"
  by (simp add: flash_bytes_def)

lemma nth_flash_bytes: "i < n \<Longrightarrow> flash_bytes hw a n ! i = flash hw (a + of_nat i)"
  by (simp add: flash_bytes_def)

lemma flash_bytes_Suc2:
  "flash_bytes hw a (Suc (Suc m)) = flash hw a # flash hw (a + 1) # flash_bytes hw (a + 2) m"
proof (rule nth_equalityI)
  show "length (flash_bytes hw a (Suc (Suc m))) =
        length (flash hw a # flash hw (a + 1) # flash_bytes hw (a + 2) m)"
    by simp
next
  fix i assume "i < length (flash_bytes hw a (Suc (Suc m)))"
  then have i: "i < Suc (Suc m)" by simp
  then have l: "flash_bytes hw a (Suc (Suc m)) ! i = flash hw (a + of_nat i)"
    by (rule nth_flash_bytes)
  show "flash_bytes hw a (Suc (Suc m)) ! i =
        (flash hw a # flash hw (a + 1) # flash_bytes hw (a + 2) m) ! i"
  proof (cases i)
    case 0
    then show ?thesis unfolding l by simp
  next
    case (Suc j)
    show ?thesis
    proof (cases j)
      case 0
      with Suc show ?thesis unfolding l by simp
    next
      case (Suc k)
      with \<open>i = Suc j\<close> i have k: "k < m" by simp
      then have "flash_bytes hw (a + 2) m ! k = flash hw (a + 2 + of_nat k)"
        by (rule nth_flash_bytes)
      moreover have "a + of_nat i = a + 2 + of_nat k"
        using \<open>i = Suc j\<close> Suc by simp
      ultimately show ?thesis
        unfolding l using \<open>i = Suc j\<close> Suc by (simp add: add.assoc)
    qed
  qed
qed

lemma unat_sub2:
  assumes "unat (sz :: word16) = 2 * Suc n"
  shows "unat (sz - 2) = 2 * n" and "sz - 2 = 0 \<longleftrightarrow> n = 0"
proof -
  have "2 \<le> sz" using assms by (simp add: word_le_nat_alt)
  then have "unat (sz - 2) = unat sz - unat (2 :: word16)" by (rule unat_sub)
  then show u: "unat (sz - 2) = 2 * n" using assms by simp
  show "sz - 2 = 0 \<longleftrightarrow> n = 0"
    using u by (metis mult_eq_0_iff unat_eq_zero zero_neq_numeral)
qed

lemma patch2:
  assumes "p + 1 < length buf"
  shows "buf[p := l, p + 1 := h] = take p buf @ [l, h] @ drop (p + 2) buf"
proof -
  have d: "drop (Suc p) buf = buf ! Suc p # drop (Suc (Suc p)) buf"
    using assms by (simp add: Cons_nth_drop_Suc)
  have "buf[p := l] = take p buf @ l # drop (Suc p) buf"
    using assms by (simp add: upd_conv_take_nth_drop)
  then have "buf[p := l, p + 1 := h] = (take p buf @ l # drop (Suc p) buf)[p + 1 := h]"
    by simp
  also have "\<dots> = take p buf @ (l # drop (Suc p) buf)[1 := h]"
    using assms by (simp add: list_update_append)
  also have "\<dots> = take p buf @ [l, h] @ drop (p + 2) buf"
    unfolding d by simp
  finally show ?thesis .
qed

lemma flash_bytes_2: "flash_bytes hw a 2 = [flash hw a, flash hw (a + 1)]"
  using flash_bytes_Suc2 [of hw a 0] by (simp add: numeral_2_eq_2)

lemma flash_bytes_add2:
  "flash_bytes hw a (2 + m) = flash hw a # flash hw (a + 1) # flash_bytes hw (a + 2) m"
  using flash_bytes_Suc2 [of hw a m] by (simp add: numeral_2_eq_2)

lemma pgm_read_word_near_low: "ucast (pgm_read_word_near hw a) = flash hw a"
  unfolding pgm_read_word_near_def by (rule low_byte_of_word)

lemma pgm_read_word_near_high: "ucast (drop_bit 8 (pgm_read_word_near hw a)) = flash hw (a + 1)"
  unfolding pgm_read_word_near_def by (rule high_byte_of_word)

lemma read_flash_loop_step:
  assumes "p + 1 < 285"
  shows "read_flash_loop p sz s =
         (if sz - 2 \<noteq> 0
          then read_flash_loop (p + 2) (sz - 2)
                 (s\<lparr>msgBuffer := (msgBuffer s)[p := flash (dev s) (address s),
                                                 p + 1 := flash (dev s) (address s + 1)],
                    address := address s + 2\<rparr>)
          else (s\<lparr>msgBuffer := (msgBuffer s)[p := flash (dev s) (address s),
                                                 p + 1 := flash (dev s) (address s + 1)],
                    address := address s + 2\<rparr>, p + 2))"
  using assms
  by (subst read_flash_loop.simps)
     (simp add: Let_def pgm_read_word_near_low pgm_read_word_near_high)

lemma read_flash_loop_reads:
  assumes "length (msgBuffer s) = 285" and "unat sz = 2 * Suc n" and "p + unat sz \<le> 285"
  shows "read_flash_loop p sz s =
         (s\<lparr>msgBuffer := take p (msgBuffer s) @ flash_bytes (dev s) (address s) (unat sz)
                          @ drop (p + unat sz) (msgBuffer s),
            address := address s + sz\<rparr>, p + unat sz)"
  using assms
proof (induction n arbitrary: p sz s)
  case 0
  then have u: "unat sz = 2" by simp
  then have sz: "sz = 2" by (simp add: word_unat_eq_iff)
  have p: "p + 1 < 285" "p + 1 < length (msgBuffer s)" using 0 by simp_all
  have z: "sz - 2 = 0" by (simp add: sz)
  show ?case
    unfolding read_flash_loop_step [OF p(1)] z u flash_bytes_2 patch2 [OF p(2)]
    by (simp add: sz)
next
  case (Suc n)
  define m where "m = unat (sz - 2)"
  have m: "m = 2 * Suc n" and nz: "sz - 2 \<noteq> 0"
    using unat_sub2 [OF Suc.prems(2)] by (simp_all add: m_def)
  have u: "unat sz = 2 + m" using Suc.prems(2) m by simp
  have p: "p + 1 < 285" "p + 1 < length (msgBuffer s)" using Suc.prems u by simp_all
  define buf' where "buf' = take p (msgBuffer s) @ [flash (dev s) (address s),
      flash (dev s) (address s + 1)] @ drop (p + 2) (msgBuffer s)"
  define s' where "s' = s\<lparr>msgBuffer := buf', address := address s + 2\<rparr>"
  have lb: "length buf' = 285" using Suc.prems(1) p by (simp add: buf'_def)
  have ih: "read_flash_loop (p + 2) (sz - 2) s' =
         (s'\<lparr>msgBuffer := take (p + 2) (msgBuffer s') @ flash_bytes (dev s') (address s') (unat (sz - 2))
                          @ drop (p + 2 + unat (sz - 2)) (msgBuffer s'),
            address := address s' + (sz - 2)\<rparr>, p + 2 + unat (sz - 2))"
    using Suc.prems(3) u m lb by (intro Suc.IH) (simp_all add: s'_def m_def)
  have t1: "take (p + 2) buf' = take p (msgBuffer s) @ [flash (dev s) (address s),
      flash (dev s) (address s + 1)]"
    using Suc.prems(1) p by (simp add: buf'_def)
  have t2: "drop (p + 2 + m) buf' = drop (p + (2 + m)) (msgBuffer s)"
    using Suc.prems(1) p by (simp add: buf'_def add.commute [where 'a = nat])
  have "read_flash_loop p sz s = read_flash_loop (p + 2) (sz - 2) s'"
    unfolding read_flash_loop_step [OF p(1)] s'_def buf'_def patch2 [OF p(2)] using nz by simp
  also note ih
  finally show ?case
    unfolding u flash_bytes_add2 m_def [symmetric]
    by (simp add: s'_def t1 [simplified] t2 [simplified])
qed

subsection \<open>One message and its answer\<close>

lemma example_start_listening: "listening example_start"
  by (simp add: listening_def example_start_simps)

lemma exchange:
  assumes "listening s" and "seq = 1 \<or> seq = seqNum s" and "body \<noteq> []" and "length body \<le> 285"
    and "d = dispatch cfg (received seq body s)"
    and "fault d = None" and "isLeave d = 0" and "unat (msgLength d) \<le> 285"
  shows "run cfg s (map Received (frame seq body)) =
         d\<lparr>tx := tx s @ frame seq (take (unat (msgLength d)) (msgBuffer d)),
           checksum := foldl (XOR) 0 (frame_bytes seq (take (unat (msgLength d)) (msgBuffer d))),
           msgLength := 0, seqNum := seq + 1, msgParseState := ST_START\<rparr>"
proof -
  have l: "fault s = None" "isLeave s = 0" "msgParseState s = ST_START" "length (msgBuffer s) = 285"
    using assms(1) by (simp_all add: listening_def)
  have r: "run cfg s (map Received (frame seq body)) = process cfg (received seq body s)"
    using l assms(2,3,4) by (rule run_frame)
  have f: "seqNum d = seq" "tx d = tx s" "length (msgBuffer d) = 285"
    unfolding assms(5) using assms(4) l(4) by (simp_all add: dispatch_frame) (simp_all add: received_def)
  have "isLeave d < 2" using assms(7) by simp
  from process_answer [OF assms(5) assms(6) this f(3) assms(8)]
  show ?thesis unfolding r using assms(7) by (simp add: f)
qed

lemma exchange_listening:
  assumes "listening s" and "seq = 1 \<or> seq = seqNum s" and "body \<noteq> []" and "length body \<le> 285"
    and "d = dispatch cfg (received seq body s)"
    and "fault d = None" and "isLeave d = 0" and "unat (msgLength d) \<le> 285"
    and "s' = run cfg s (map Received (frame seq body))"
  shows "listening s'" and "seqNum s' = seq + 1" and "address s' = address d" and "dev s' = dev d"
    and "tx s' = tx s @ frame seq (take (unat (msgLength d)) (msgBuffer d))"
proof -
  note e = exchange [OF assms(1-8)]
  have "length (msgBuffer d) = 285"
    unfolding assms(5) using assms(1,4) by (simp add: dispatch_frame) (simp add: received_def listening_def)
  then show "listening s'" unfolding assms(9) e using assms(6,7) by (simp add: listening_def)
  show "seqNum s' = seq + 1" "address s' = address d" "dev s' = dev d"
    "tx s' = tx s @ frame seq (take (unat (msgLength d)) (msgBuffer d))"
    unfolding assms(9) e by simp_all
qed

lemma dispatch_load_address:
  assumes "msgBuffer s ! 0 = CMD_LOAD_ADDRESS"
  shows "dispatch cfg s =
         s\<lparr>address := push_bit 1 (push_bit 8 (ucast (msgBuffer s ! 3)) OR ucast (msgBuffer s ! 4)),
           msgLength := 2, msgBuffer := (msgBuffer s)[1 := STATUS_CMD_OK]\<rparr>"
  unfolding dispatch_def Let_def assms by (simp add: command_defs)

lemma dispatch_read_flash:
  assumes "msgBuffer s ! 0 = CMD_READ_FLASH_ISP"
  shows "dispatch cfg s = cmd_read s"
  unfolding dispatch_def Let_def assms by (simp add: command_defs)

lemma dispatch_program_flash:
  assumes "msgBuffer s ! 0 = CMD_PROGRAM_FLASH_ISP"
  shows "dispatch cfg s = cmd_program cfg s"
  unfolding dispatch_def Let_def assms by (simp add: command_defs)

lemma take_2_update:
  "2 \<le> length b \<Longrightarrow> take 2 (b[Suc 0 := x]) = [b ! 0, x]"
  by (intro nth_equalityI) (auto simp: nth_list_update less_Suc_eq numeral_2_eq_2)

lemma cmd_read_flash:
  assumes "fault s = None" and "length (msgBuffer s) = 285"
    and "msgBuffer s ! 0 = CMD_READ_FLASH_ISP"
    and "sz = size_field (msgBuffer s)" and "unat sz = 2 * Suc n" and "unat sz \<le> 282"
  shows "cmd_read s =
         s\<lparr>msgLength := sz + 3,
           msgBuffer := [CMD_READ_FLASH_ISP, STATUS_CMD_OK]
                        @ flash_bytes (dev s) (address s) (unat sz) @ [STATUS_CMD_OK]
                        @ drop (unat sz + 3) (msgBuffer s),
           address := address s + sz\<rparr>"
proof -
  define s1 where "s1 = s\<lparr>msgLength := sz + 3, msgBuffer := (msgBuffer s)[1 := STATUS_CMD_OK]\<rparr>"
  have l1: "length (msgBuffer s1) = 285" using assms(2) by (simp add: s1_def)
  have loop: "read_flash_loop 2 sz s1 =
         (s1\<lparr>msgBuffer := take 2 (msgBuffer s1) @ flash_bytes (dev s1) (address s1) (unat sz)
                          @ drop (2 + unat sz) (msgBuffer s1),
            address := address s1 + sz\<rparr>, 2 + unat sz)"
    using l1 assms(5) assms(6) by (intro read_flash_loop_reads) simp_all
  have tk: "take 2 (msgBuffer s1) = [CMD_READ_FLASH_ISP, STATUS_CMD_OK]"
    using assms(2,3) by (simp add: s1_def take_2_update)
  have dr: "drop (2 + unat sz) (msgBuffer s1) = msgBuffer s ! (2 + unat sz) # drop (unat sz + 3) (msgBuffer s)"
  proof -
    have "drop (2 + unat sz) (msgBuffer s1) = drop (2 + unat sz) (msgBuffer s)"
      by (simp add: s1_def)
    also have "\<dots> = msgBuffer s ! (2 + unat sz) # drop (Suc (2 + unat sz)) (msgBuffer s)"
      using assms(2,6) by (intro Cons_nth_drop_Suc [symmetric]) simp
    also have "Suc (2 + unat sz) = unat sz + 3" by simp
    finally show ?thesis .
  qed
  define front where "front = [CMD_READ_FLASH_ISP, STATUS_CMD_OK] @ flash_bytes (dev s) (address s) (unat sz)"
  define rest where "rest = drop (unat sz + 3) (msgBuffer s)"
  define q where "q = 2 + unat sz"
  define mb2 where "mb2 = front @ msgBuffer s ! q # rest"
  have lf: "length front = q" by (simp add: front_def q_def)
  have q: "\<not> 285 \<le> q" using assms(6) by (simp add: q_def)
  have upd: "mb2[q := STATUS_CMD_OK] = front @ STATUS_CMD_OK # rest"
    unfolding mb2_def using lf by (simp add: list_update_append)
  have mb2: "take 2 (msgBuffer s1) @ flash_bytes (dev s1) (address s1) (unat sz)
                          @ drop (2 + unat sz) (msgBuffer s1) = mb2"
    unfolding tk dr mb2_def front_def rest_def q_def by (simp add: s1_def)
  have loop': "read_flash_loop 2 sz s1 = (s1\<lparr>msgBuffer := mb2, address := address s1 + sz\<rparr>, q)"
    unfolding loop mb2 q_def ..
  have f1: "fault s1 = None" using assms(1) by (simp add: s1_def)
  have "cmd_read s = (s1\<lparr>msgBuffer := mb2, address := address s1 + sz\<rparr>)
      \<lparr>msgBuffer := mb2[q := STATUS_CMD_OK]\<rparr>"
    unfolding cmd_read_def Let_def assms(4) [symmetric] s1_def [symmetric]
    using assms(3) q f1 by (simp add: loop')
  also have "\<dots> = s\<lparr>msgLength := sz + 3, msgBuffer := front @ STATUS_CMD_OK # rest,
      address := address s + sz\<rparr>"
    unfolding upd by (simp add: s1_def)
  finally show ?thesis
    unfolding front_def rest_def by simp
qed


lemma push_bit_1_word16_of_bytes:
  "push_bit 1 (push_bit 8 (ucast (ucast (drop_bit 8 w) :: byte)) OR ucast (ucast w :: byte))
   = 2 * (w :: word16)"
  by (simp only: word16_of_bytes) (simp add: push_bit_eq_mult)

lemma exchange_load_address:
  assumes "listening s" and "seq = 1 \<or> seq = seqNum s"
    and "s' = run cfg s (map Received
           (frame seq [CMD_LOAD_ADDRESS, b1, b2, ucast (drop_bit 8 w), ucast (w :: word16)]))"
  shows "listening s'" and "seqNum s' = seq + 1" and "address s' = 2 * w" and "dev s' = dev s"
    and "tx s' = tx s @ frame seq [CMD_LOAD_ADDRESS, STATUS_CMD_OK]"
proof -
  define body where "body = [CMD_LOAD_ADDRESS, b1, b2, ucast (drop_bit 8 w), ucast w]"
  define r where "r = received seq body s"
  define d where "d = dispatch cfg r"
  have l: "length (msgBuffer s) = 285" "fault s = None" "isLeave s = 0"
    using assms(1) by (simp_all add: listening_def)
  have r: "msgBuffer r ! 0 = CMD_LOAD_ADDRESS" "msgBuffer r ! 3 = ucast (drop_bit 8 w)"
    "msgBuffer r ! 4 = ucast w" "length (msgBuffer r) = 285" "fault r = None" "isLeave r = 0"
    "address r = address s" "dev r = dev s"
    using l by (simp_all add: r_def received_def body_def)
  have d: "d = r\<lparr>address := 2 * w, msgLength := 2,
                msgBuffer := (msgBuffer r)[1 := STATUS_CMD_OK]\<rparr>"
    unfolding d_def dispatch_load_address [OF r(1)] r(2,3) push_bit_1_word16_of_bytes ..
  have b: "body \<noteq> []" "length body \<le> 285" by (simp_all add: body_def)
  have dd: "d = dispatch cfg (received seq body s)" by (simp add: d_def r_def)
  have ok: "fault d = None" "isLeave d = 0" "unat (msgLength d) \<le> 285"
    using r by (simp_all add: d)
  have s': "s' = run cfg s (map Received (frame seq body))"
    by (simp add: assms(3) body_def)
  note e = exchange_listening [OF assms(1,2) b dd ok s']
  have tk: "take (unat (msgLength d)) (msgBuffer d) = [CMD_LOAD_ADDRESS, STATUS_CMD_OK]"
    using r(1,4) by (simp add: d take_2_update)
  show "listening s'" by (rule e)
  show "seqNum s' = seq + 1" by (rule e)
  show "address s' = 2 * w" using e(3) by (simp add: d)
  show "dev s' = dev s" using e(4) r(8) by (simp add: d)
  show "tx s' = tx s @ frame seq [CMD_LOAD_ADDRESS, STATUS_CMD_OK]"
    using e(5) unfolding tk .
qed

lemma exchange_read_flash:
  assumes "listening s" and "seq = 1 \<or> seq = seqNum s"
    and "even (unat sz)" and "2 \<le> unat sz" and "unat sz \<le> 282"
    and "s' = run cfg s (map Received
           (frame seq [CMD_READ_FLASH_ISP, ucast (drop_bit 8 sz), ucast (sz :: word16), x]))"
  shows "listening s'" and "seqNum s' = seq + 1" and "address s' = address s + sz"
    and "dev s' = dev s"
    and "tx s' = tx s @ frame seq ([CMD_READ_FLASH_ISP, STATUS_CMD_OK]
                   @ flash_bytes (dev s) (address s) (unat sz) @ [STATUS_CMD_OK])"
proof -
  define body where "body = [CMD_READ_FLASH_ISP, ucast (drop_bit 8 sz), ucast sz, x]"
  define r where "r = received seq body s"
  define d where "d = dispatch cfg r"
  have l: "length (msgBuffer s) = 285" "fault s = None" "isLeave s = 0"
    using assms(1) by (simp_all add: listening_def)
  have r: "msgBuffer r ! 0 = CMD_READ_FLASH_ISP" "length (msgBuffer r) = 285" "fault r = None"
    "isLeave r = 0" "address r = address s" "dev r = dev s"
    using l by (simp_all add: r_def received_def body_def)
  have "msgBuffer r ! 1 = ucast (drop_bit 8 sz)" "msgBuffer r ! 2 = ucast sz"
    by (simp_all add: r_def received_def body_def)
  then have sf: "sz = size_field (msgBuffer r)"
    unfolding size_field_def by (simp only: word16_of_bytes)
  from assms(3,4) obtain n where n: "unat sz = 2 * Suc n"
    by (metis Suc_pred dvd_def mult_2 mult_is_0 not_numeral_le_zero zero_less_iff_neq_zero
        zero_neq_numeral)
  have d: "d = r\<lparr>msgLength := sz + 3,
           msgBuffer := [CMD_READ_FLASH_ISP, STATUS_CMD_OK]
                        @ flash_bytes (dev r) (address r) (unat sz) @ [STATUS_CMD_OK]
                        @ drop (unat sz + 3) (msgBuffer r),
           address := address r + sz\<rparr>"
    unfolding d_def dispatch_read_flash [OF r(1)]
    using r(3,2,1) sf n assms(5) by (rule cmd_read_flash)
  have u3: "unat (sz + 3) = unat sz + 3"
    using assms(5) by (simp add: unat_word_ariths)
  have b: "body \<noteq> []" "length body \<le> 285" by (simp_all add: body_def)
  have dd: "d = dispatch cfg (received seq body s)" by (simp add: d_def r_def)
  have ok: "fault d = None" "isLeave d = 0" "unat (msgLength d) \<le> 285"
    using r assms(5) by (simp_all add: d u3)
  have s': "s' = run cfg s (map Received (frame seq body))"
    by (simp add: assms(6) body_def)
  note e = exchange_listening [OF assms(1,2) b dd ok s']
  have tk: "take (unat (msgLength d)) (msgBuffer d) = [CMD_READ_FLASH_ISP, STATUS_CMD_OK]
                   @ flash_bytes (dev s) (address s) (unat sz) @ [STATUS_CMD_OK]"
  proof -
    define front where "front = [CMD_READ_FLASH_ISP, STATUS_CMD_OK]
                   @ flash_bytes (dev s) (address s) (unat sz) @ [STATUS_CMD_OK]"
    have "msgBuffer d = front @ drop (unat sz + 3) (msgBuffer r)"
      by (simp add: d front_def r(5,6))
    moreover have "unat (msgLength d) = length front"
      by (simp add: d u3 front_def)
    ultimately have "take (unat (msgLength d)) (msgBuffer d) = front"
      by simp
    then show ?thesis by (simp only: front_def)
  qed
  show "listening s'" by (rule e)
  show "seqNum s' = seq + 1" by (rule e)
  show "address s' = address s + sz" using e(3) r(5) by (simp add: d)
  show "dev s' = dev s" using e(4) r(6) by (simp add: d)
  show "tx s' = tx s @ frame seq ([CMD_READ_FLASH_ISP, STATUS_CMD_OK]
                   @ flash_bytes (dev s) (address s) (unat sz) @ [STATUS_CMD_OK])"
    using e(5) unfolding tk .
qed

subsection \<open>Load address, then read flash\<close>

text \<open>
  Claim C7, as amended. A load-address message with word address \<open>w\<close> sets \<open>address\<close>
  to \<open>2 * w\<close> (16-bit arithmetic: the shift by one bit). A read-flash message that follows
  with a size \<open>sz\<close> that is even and between 2 and 282 is answered with the command byte,
  status-OK, the \<open>sz\<close> flash bytes from byte address \<open>2 * w\<close> on and status-OK, and
  leaves \<open>address\<close> at \<open>2 * w + sz\<close>. In particular word address \<open>0x0010\<close> gives
  \<open>0x0020\<close>, and a read of size 4 returns the bytes at \<open>0x0020 .. 0x0023\<close> and leaves
  \<open>address\<close> at \<open>0x0024\<close>.
\<close>

theorem load_address_then_read_flash:
  assumes "listening s" and "q1 = 1 \<or> q1 = seqNum s" and "q2 = 1 \<or> q2 = q1 + 1"
    and "even (unat sz)" and "2 \<le> unat sz" and "unat sz \<le> 282"
    and "s1 = run cfg s (map Received
           (frame q1 [CMD_LOAD_ADDRESS, b1, b2, ucast (drop_bit 8 w), ucast (w :: word16)]))"
    and "s2 = run cfg s1 (map Received
           (frame q2 [CMD_READ_FLASH_ISP, ucast (drop_bit 8 sz), ucast (sz :: word16), x]))"
  shows "address s1 = 2 * w
         \<and> tx s2 = tx s1 @ frame q2 ([CMD_READ_FLASH_ISP, STATUS_CMD_OK]
                      @ flash_bytes (dev s) (2 * w) (unat sz) @ [STATUS_CMD_OK])
         \<and> address s2 = 2 * w + sz"
proof -
  note a = exchange_load_address [OF assms(1,2,7)]
  have q: "q2 = 1 \<or> q2 = seqNum s1" using assms(3) a(2) by simp
  note b = exchange_read_flash [OF a(1) q assms(4,5,6,8)]
  show ?thesis using a(3,4) b(3,5) by simp
qed

theorem load_address_then_read_flash_witness:
  "address (run example_config example_start
      (map Received (frame 1 [CMD_LOAD_ADDRESS, 0, 0, 0x00, 0x10]))) = 0x0020
   \<and> tx (run example_config
          (run example_config example_start
             (map Received (frame 1 [CMD_LOAD_ADDRESS, 0, 0, 0x00, 0x10])))
          (map Received (frame 2 [CMD_READ_FLASH_ISP, 0x00, 0x04, 0x20])))
      = tx (run example_config example_start
             (map Received (frame 1 [CMD_LOAD_ADDRESS, 0, 0, 0x00, 0x10])))
        @ frame 2 [CMD_READ_FLASH_ISP, STATUS_CMD_OK, 0x20, 0x21, 0x22, 0x23, STATUS_CMD_OK]
   \<and> address (run example_config
          (run example_config example_start
             (map Received (frame 1 [CMD_LOAD_ADDRESS, 0, 0, 0x00, 0x10])))
          (map Received (frame 2 [CMD_READ_FLASH_ISP, 0x00, 0x04, 0x20]))) = 0x0024"
proof -
  have h: "(1 :: byte) = 1 \<or> 1 = seqNum example_start" "(2 :: byte) = 1 \<or> 2 = (1 :: byte) + 1"
    "even (unat (4 :: word16))" "2 \<le> unat (4 :: word16)" "unat (4 :: word16) \<le> 282"
    by simp_all
  have w: "ucast (drop_bit 8 (0x10 :: word16)) = (0 :: byte)" "ucast (0x10 :: word16) = (0x10 :: byte)"
    "ucast (drop_bit 8 (4 :: word16)) = (0 :: byte)" "ucast (4 :: word16) = (4 :: byte)"
    by simp_all
  have fb: "flash_bytes (dev example_start) (2 * 0x10) (unat (4 :: word16))
      = [0x20, 0x21, 0x22, 0x23]"
    by (simp add: flash_bytes_def example_start_def initial_def example_device_def upt_rec)
  note t = load_address_then_read_flash [OF example_start_listening h refl refl,
      of example_config 0 0 "0x10" "0x20"]
  show ?thesis
    using t unfolding w fb by simp
qed

text \<open>
  The read loop runs its body before it tests \<open>size\<close> and takes 2 off each time. With
  size 1, and with size 0, the test does not stop it inside the buffer: the loop writes
  past the end of \<open>msgBuffer\<close>, and no answer follows.
\<close>

theorem read_flash_odd_size_counterexample:
  "fault (run example_config example_start
      (map Received (frame 1 [CMD_LOAD_ADDRESS, 0, 0, 0x00, 0x10]
                     @ frame 2 [CMD_READ_FLASH_ISP, 0x00, 0x01, 0x20]))) = Some (WriteAt 285)
   \<and> tx (run example_config example_start
      (map Received (frame 1 [CMD_LOAD_ADDRESS, 0, 0, 0x00, 0x10]
                     @ frame 2 [CMD_READ_FLASH_ISP, 0x00, 0x01, 0x20])))
     = frame 1 [CMD_LOAD_ADDRESS, STATUS_CMD_OK]
   \<and> fault (run example_config example_start
      (map Received (frame 1 [CMD_LOAD_ADDRESS, 0, 0, 0x00, 0x10]
                     @ frame 2 [CMD_READ_FLASH_ISP, 0x00, 0x00, 0x20]))) = Some (WriteAt 285)"
  by code_simp

subsection \<open>Programming flash: the words written\<close>

lemma nth_words_at:
  "i < k \<Longrightarrow> words_at buf p k ! i
     = push_bit 8 (ucast (buf ! (p + 2 * i + 1))) OR ucast (buf ! (p + 2 * i))"
  by (simp add: words_at_def)

lemma length_words_at [simp]: "length (words_at buf p k) = k"
  by (simp add: words_at_def)

lemma words_at_Suc:
  "words_at buf p (Suc k)
     = (push_bit 8 (ucast (buf ! (p + 1))) OR ucast (buf ! p)) # words_at buf (p + 2) k"
proof (rule nth_equalityI)
  show "length (words_at buf p (Suc k))
      = length ((push_bit 8 (ucast (buf ! (p + 1))) OR ucast (buf ! p)) # words_at buf (p + 2) k)"
    by simp
next
  fix i assume "i < length (words_at buf p (Suc k))"
  then have i: "i < Suc k" by simp
  show "words_at buf p (Suc k) ! i
      = ((push_bit 8 (ucast (buf ! (p + 1))) OR ucast (buf ! p)) # words_at buf (p + 2) k) ! i"
  proof (cases i)
    case 0
    then show ?thesis unfolding nth_words_at [OF i] by simp
  next
    case (Suc j)
    with i have "j < k" by simp
    then have "words_at buf (p + 2) k ! j
        = push_bit 8 (ucast (buf ! (p + 2 + 2 * j + 1))) OR ucast (buf ! (p + 2 + 2 * j))"
      by (rule nth_words_at)
    then show ?thesis
      unfolding nth_words_at [OF i] using Suc by (simp add: add.commute add.left_commute)
  qed
qed

lemma write_flash_loop_step:
  assumes "p + 1 < 285"
  shows "write_flash_loop cfg p sz s =
         (if sz - 2 \<noteq> 0
          then write_flash_loop cfg (p + 2) (sz - 2)
                 (s\<lparr>dev := boot_page_fill cfg (address s)
                        (push_bit 8 (ucast (msgBuffer s ! (p + 1))) OR ucast (msgBuffer s ! p))
                        (dev s),
                    address := address s + 2\<rparr>)
          else s\<lparr>dev := boot_page_fill cfg (address s)
                        (push_bit 8 (ucast (msgBuffer s ! (p + 1))) OR ucast (msgBuffer s ! p))
                        (dev s),
                    address := address s + 2\<rparr>)"
  using assms by (subst write_flash_loop.simps) (simp add: Let_def)

lemma write_flash_loop_fills:
  assumes "unat sz = 2 * Suc n" and "p + unat sz \<le> 285"
  shows "write_flash_loop cfg p sz s =
         s\<lparr>dev := page_fills cfg (address s) (words_at (msgBuffer s) p (Suc n)) (dev s),
           address := address s + sz\<rparr>"
  using assms
proof (induction n arbitrary: p sz s)
  case 0
  then have u: "unat sz = 2" by simp
  then have sz: "sz = 2" by (simp add: word_unat_eq_iff)
  have p: "p + 1 < 285" using 0 by simp
  have z: "sz - 2 = 0" by (simp add: sz)
  have w: "words_at (msgBuffer s) p (Suc 0)
      = [push_bit 8 (ucast (msgBuffer s ! (p + 1))) OR ucast (msgBuffer s ! p)]"
    unfolding words_at_Suc by (simp add: words_at_def)
  show ?case
    unfolding write_flash_loop_step [OF p] z w by (simp add: sz)
next
  case (Suc n)
  define m where "m = unat (sz - 2)"
  have m: "m = 2 * Suc n" and nz: "sz - 2 \<noteq> 0"
    using unat_sub2 [OF Suc.prems(1)] by (simp_all add: m_def)
  have u: "unat sz = 2 + m" using Suc.prems(1) m by simp
  have p: "p + 1 < 285" using Suc.prems u by simp
  define d where "d = (push_bit 8 (ucast (msgBuffer s ! (p + 1))) OR ucast (msgBuffer s ! p) :: word16)"
  define s' where "s' = s\<lparr>dev := boot_page_fill cfg (address s) d (dev s),
                    address := address s + 2\<rparr>"
  have ih: "write_flash_loop cfg (p + 2) (sz - 2) s' =
         s'\<lparr>dev := page_fills cfg (address s') (words_at (msgBuffer s') (p + 2) (Suc n)) (dev s'),
           address := address s' + (sz - 2)\<rparr>"
    using Suc.prems(2) u m by (intro Suc.IH) (simp_all add: m_def)
  have "write_flash_loop cfg p sz s = write_flash_loop cfg (p + 2) (sz - 2) s'"
    unfolding write_flash_loop_step [OF p] s'_def d_def using nz by simp
  also note ih
  finally show ?case
    unfolding words_at_Suc [of _ p "Suc n"] d_def [symmetric]
    by (simp add: s'_def)
qed

lemma page_fills_flash [simp]: "flash (page_fills cfg a ds hw) = flash hw"
  by (induction ds arbitrary: a hw) (simp_all add: boot_page_fill_def)

lemma page_fills_buffer:
  assumes "unat a mod SPM_PAGESIZE cfg = 2 * ofs"
    and "2 * (ofs + length ds) \<le> SPM_PAGESIZE cfg" and "unat a + 2 * length ds < 65536"
  shows "page_buffer (page_fills cfg a ds hw) j =
         (if ofs \<le> j \<and> j < ofs + length ds then ds ! (j - ofs) else page_buffer hw j)"
  using assms
proof (induction ds arbitrary: a ofs hw)
  case Nil
  then show ?case by auto
next
  case (Cons d ds)
  have bw: "buffer_word cfg a = ofs"
    using Cons.prems(1) by (simp add: buffer_word_def)
  define hw' where "hw' = boot_page_fill cfg a d hw"
  have pb: "page_buffer hw' = (page_buffer hw)(ofs := d)"
    by (simp add: hw'_def boot_page_fill_def bw)
  show ?case
  proof (cases "ds = []")
    case True
    then show ?thesis
      using pb by (auto simp: hw'_def [symmetric])
  next
    case False
    then have len: "0 < length ds" by simp
    have u: "unat (a + 2) = unat a + 2"
      using Cons.prems(3) by (simp add: unat_word_ariths)
    have "(unat a + 2) mod SPM_PAGESIZE cfg = (unat a mod SPM_PAGESIZE cfg + 2) mod SPM_PAGESIZE cfg"
      by (rule mod_add_left_eq [symmetric])
    also have "\<dots> = 2 * ofs + 2"
    proof -
      have "2 * ofs + 2 < SPM_PAGESIZE cfg" using Cons.prems(2) False by (cases ds) simp_all
      then show ?thesis unfolding Cons.prems(1) by (rule mod_less)
    qed
    finally have m: "unat (a + 2) mod SPM_PAGESIZE cfg = 2 * Suc ofs"
      by (simp add: u)
    have "page_buffer (page_fills cfg (a + 2) ds hw') j =
         (if Suc ofs \<le> j \<and> j < Suc ofs + length ds then ds ! (j - Suc ofs) else page_buffer hw' j)"
      using m Cons.prems(2,3) u by (intro Cons.IH) simp_all
    then show ?thesis
      unfolding hw'_def [symmetric] page_fills.simps pb
      by (auto simp: nth_Cons' Suc_diff_le)
  qed
qed

lemma page_of_offset:
  assumes "0 < n" and "unat a mod n = 0" and "j < n" and "unat a + j < 65536"
  shows "unat (a + of_nat j :: word16) div n = unat a div n"
    and "unat (a + of_nat j :: word16) mod n = j"
proof -
  have u: "unat (a + of_nat j :: word16) = unat a + j"
    using assms(4) by (simp add: unat_word_ariths unat_of_nat)
  from assms(2) obtain k where k: "unat a = n * k" by (auto simp: mod_eq_0_iff_dvd dvd_def)
  show "unat (a + of_nat j :: word16) div n = unat a div n"
    unfolding u k using assms(1,3) by simp
  show "unat (a + of_nat j :: word16) mod n = j"
    unfolding u k using assms(3) by simp
qed

subsection \<open>Programming flash: the bootloader section\<close>

lemma spm_log_page_fills:
  "spm_log (page_fills cfg a ds hw) = spm_log hw @ fill_ops a ds"
  by (induction ds arbitrary: a hw) (simp_all add: boot_page_fill_def)

lemma fill_ops_below:
  assumes "unat a + 2 * length ds \<le> unat (BOOTLOADER_ADDRESS cfg)"
  shows "list_all (below_boundary cfg) (fill_ops a ds)"
  using assms
proof (induction ds arbitrary: a)
  case Nil
  then show ?case by simp
next
  case (Cons d ds)
  have "unat (BOOTLOADER_ADDRESS cfg) < 2 ^ LENGTH(16)" by (rule unsigned_less)
  then have u: "unat (a + 2) = unat a + 2"
    using Cons.prems by (simp add: unat_word_ariths)
  have "a < BOOTLOADER_ADDRESS cfg"
    using Cons.prems by (simp add: word_less_nat_alt)
  moreover have "list_all (below_boundary cfg) (fill_ops (a + 2) ds)"
    using Cons.prems u by (intro Cons.IH) simp
  ultimately show ?case by simp
qed

lemma program_flash_dispatch:
  assumes "msgBuffer s ! 0 = CMD_PROGRAM_FLASH_ISP" and "fault s = None"
    and "address s < APP_END cfg"
    and "sz = size_field (msgBuffer s)" and "unat sz = 2 * Suc n" and "unat sz \<le> 275"
  shows "dispatch cfg s =
         s\<lparr>dev := boot_page_write cfg (address s)
                   (page_fills cfg (address s) (words_at (msgBuffer s) 10 (Suc n))
                      (boot_page_erase cfg (address s) (dev s))),
           address := address s + sz, msgLength := 2,
           msgBuffer := (msgBuffer s)[1 := STATUS_CMD_OK]\<rparr>"
proof -
  define hw1 where "hw1 = boot_page_erase cfg (address s) (dev s)"
  define hw2 where "hw2 = page_fills cfg (address s) (words_at (msgBuffer s) 10 (Suc n)) hw1"
  define s1 where "s1 = s\<lparr>dev := hw1\<rparr>"
  have loop: "write_flash_loop cfg 10 sz s1 = s1\<lparr>dev := hw2, address := address s + sz\<rparr>"
    using write_flash_loop_fills [OF assms(5), of 10 cfg s1] assms(6)
    by (simp add: s1_def hw2_def)
  have pf: "program_flash cfg s
      = s\<lparr>dev := boot_page_write cfg (address s) hw2, address := address s + sz\<rparr>"
    using assms(2,3)
    by (simp add: program_flash_def Let_def assms(4) [symmetric] hw1_def [symmetric]
        s1_def [symmetric] loop) (simp add: s1_def)
  show ?thesis
    unfolding dispatch_program_flash [OF assms(1)]
    using assms(2) by (simp add: cmd_program_def Let_def assms(1) pf hw2_def hw1_def)
qed

lemma program_flash_protected:
  assumes "msgBuffer s ! 0 = CMD_PROGRAM_FLASH_ISP" and "fault s = None"
    and "APP_END cfg \<le> address s"
  shows "dispatch cfg s = s\<lparr>msgLength := 2, msgBuffer := (msgBuffer s)[1 := STATUS_CMD_OK]\<rparr>"
proof -
  from assms(3) have "\<not> address s < APP_END cfg" by simp
  then have "program_flash cfg s = s" by (simp add: program_flash_def Let_def)
  then show ?thesis
    unfolding dispatch_program_flash [OF assms(1)]
    using assms(2) by (simp add: cmd_program_def Let_def assms(1))
qed

lemma range_below_app_end:
  assumes "2 \<le> unat sz" and "unat a + unat sz \<le> unat (BOOTLOADER_ADDRESS cfg)"
  shows "a < APP_END cfg"
proof -
  have "BOOTLOADER_ADDRESS cfg \<noteq> 0" using assms by auto
  then have "unat (APP_END cfg) = unat (BOOTLOADER_ADDRESS cfg) - 1"
    by (simp add: APP_END_def unat_minus_one)
  then show ?thesis using assms by (simp add: word_less_nat_alt)
qed

text \<open>
  Claim C1, as amended. The program-flash command tests the boundary once, on the address
  it starts at, before the erase. When \<open>address\<close> is \<open>APP_END\<close> or more, the command
  performs no erase and no write of any kind, whatever its size field, and the answer is
  still status-OK. When \<open>address\<close> is below \<open>APP_END\<close> and the size field is even and
  between 2 and 275 (the data then lies inside the buffer), the command performs one page
  erase at \<open>address\<close>, one word write for each word of the data, at the addresses
  \<open>address\<close>, \<open>address + 2\<close>, ..., and one page write at \<open>address\<close>, and nothing else:
  no word write is held back. When moreover the range from \<open>address\<close> to
  \<open>address + size\<close> ends at or below \<open>BOOTLOADER_ADDRESS\<close>, each of these operations
  has an address below \<open>BOOTLOADER_ADDRESS\<close>.
\<close>

theorem program_flash_below_boundary:
  assumes "msgBuffer s ! 0 = CMD_PROGRAM_FLASH_ISP" and "fault s = None"
    and "sz = size_field (msgBuffer s)" and "s' = dispatch cfg s"
    and "ops = PageErase (address s)
               # fill_ops (address s) (words_at (msgBuffer s) 10 (unat sz div 2))
               @ [PageWrite (address s)]"
  shows "(APP_END cfg \<le> address s \<longrightarrow>
            fault s' = None \<and> dev s' = dev s
            \<and> msgLength s' = 2 \<and> msgBuffer s' = (msgBuffer s)[1 := STATUS_CMD_OK])
         \<and> (address s < APP_END cfg \<and> even (unat sz) \<and> 2 \<le> unat sz \<and> unat sz \<le> 275 \<longrightarrow>
            fault s' = None \<and> spm_log (dev s') = spm_log (dev s) @ ops
            \<and> msgLength s' = 2 \<and> msgBuffer s' = (msgBuffer s)[1 := STATUS_CMD_OK])
         \<and> (even (unat sz) \<and> 2 \<le> unat sz \<and> unat sz \<le> 275
              \<and> unat (address s) + unat sz \<le> unat (BOOTLOADER_ADDRESS cfg) \<longrightarrow>
            address s < APP_END cfg \<and> list_all (below_boundary cfg) ops)"
proof (intro conjI impI)
  assume "APP_END cfg \<le> address s"
  then have d: "s' = s\<lparr>msgLength := 2, msgBuffer := (msgBuffer s)[1 := STATUS_CMD_OK]\<rparr>"
    unfolding assms(4) by (rule program_flash_protected [OF assms(1,2)])
  show "fault s' = None" "dev s' = dev s" "msgLength s' = 2"
    "msgBuffer s' = (msgBuffer s)[1 := STATUS_CMD_OK]"
    using assms(2) by (simp_all add: d)
next
  assume h: "address s < APP_END cfg \<and> even (unat sz) \<and> 2 \<le> unat sz \<and> unat sz \<le> 275"
  define n where "n = unat sz div 2 - 1"
  have n: "unat sz = 2 * Suc n" and k: "unat sz div 2 = Suc n"
    using h by (auto simp: n_def elim!: evenE)
  have d: "s' = s\<lparr>dev := boot_page_write cfg (address s)
                   (page_fills cfg (address s) (words_at (msgBuffer s) 10 (Suc n))
                      (boot_page_erase cfg (address s) (dev s))),
           address := address s + sz, msgLength := 2,
           msgBuffer := (msgBuffer s)[1 := STATUS_CMD_OK]\<rparr>"
    unfolding assms(4) using h by (intro program_flash_dispatch [OF assms(1,2) _ assms(3) n]) simp_all
  show "fault s' = None" "msgLength s' = 2" "msgBuffer s' = (msgBuffer s)[1 := STATUS_CMD_OK]"
    using assms(2) by (simp_all add: d)
  show "spm_log (dev s') = spm_log (dev s) @ ops"
    by (simp add: d assms(5) k boot_page_write_def spm_log_page_fills boot_page_erase_def)
next
  assume h: "even (unat sz) \<and> 2 \<le> unat sz \<and> unat sz \<le> 275
      \<and> unat (address s) + unat sz \<le> unat (BOOTLOADER_ADDRESS cfg)"
  define n where "n = unat sz div 2 - 1"
  have n: "unat sz = 2 * Suc n" and k: "unat sz div 2 = Suc n"
    using h by (auto simp: n_def elim!: evenE)
  show "address s < APP_END cfg"
    using h by (intro range_below_app_end [of sz]) simp_all
  have "address s < BOOTLOADER_ADDRESS cfg"
    using h by (simp add: word_less_nat_alt)
  moreover have "list_all (below_boundary cfg)
      (fill_ops (address s) (words_at (msgBuffer s) 10 (Suc n)))"
    using h n by (intro fill_ops_below) simp
  ultimately show "list_all (below_boundary cfg) ops"
    by (simp add: assms(5) k)
qed

lemma example_program_at_simps:
  "msgBuffer (example_program_at a) ! 0 = CMD_PROGRAM_FLASH_ISP"
  "fault (example_program_at a) = None"
  "size_field (msgBuffer (example_program_at a)) = 4"
  "address (example_program_at a) = a"
  "spm_log (dev (example_program_at a)) = []"
  "words_at (msgBuffer (example_program_at a)) 10 (Suc (Suc 0)) = [0xBBAA, 0xDDCC]"
proof -
  show "msgBuffer (example_program_at a) ! 0 = CMD_PROGRAM_FLASH_ISP"
    "fault (example_program_at a) = None"
    "size_field (msgBuffer (example_program_at a)) = 4"
    "address (example_program_at a) = a"
    "spm_log (dev (example_program_at a)) = []"
    by (simp_all add: example_program_at_def received_def size_field_def example_start_def
        initial_def example_device_def)
  show "words_at (msgBuffer (example_program_at a)) 10 (Suc (Suc 0)) = [0xBBAA, 0xDDCC]"
    unfolding words_at_Suc
    by (simp add: words_at_def example_program_at_def received_def)
qed

theorem program_flash_below_boundary_witness:
  "fault (dispatch example_config (example_program_at 0xF800)) = None
   \<and> dev (dispatch example_config (example_program_at 0xF800)) = dev (example_program_at 0xF800)
   \<and> msgLength (dispatch example_config (example_program_at 0xF800)) = 2
   \<and> msgBuffer (dispatch example_config (example_program_at 0xF800))
       = (msgBuffer (example_program_at 0xF800))[1 := STATUS_CMD_OK]
   \<and> fault (dispatch example_config (example_program_at 0x0100)) = None
   \<and> spm_log (dev (dispatch example_config (example_program_at 0x0100)))
       = [PageErase 0x0100, PageFill 0x0100 0xBBAA, PageFill 0x0102 0xDDCC, PageWrite 0x0100]
   \<and> msgLength (dispatch example_config (example_program_at 0x0100)) = 2
   \<and> address (example_program_at 0x0100) < APP_END example_config
   \<and> list_all (below_boundary example_config)
       [PageErase 0x0100, PageFill 0x0100 0xBBAA, PageFill 0x0102 0xDDCC, PageWrite 0x0100]"
proof -
  note s = example_program_at_simps
  have r: "even (unat (4 :: word16)) \<and> 2 \<le> unat (4 :: word16) \<and> unat (4 :: word16) \<le> 275
      \<and> unat (address (example_program_at 0x0100)) + unat (4 :: word16)
          \<le> unat (BOOTLOADER_ADDRESS example_config)"
    by (simp add: s example_config_def)
  have g: "address (example_program_at 0x0100) < APP_END example_config
      \<and> even (unat (4 :: word16)) \<and> 2 \<le> unat (4 :: word16) \<and> unat (4 :: word16) \<le> 275"
    by (simp add: s APP_END_def example_config_def)
  have e: "APP_END example_config \<le> address (example_program_at 0xF800)"
    by (simp add: s APP_END_def example_config_def)
  note t = program_flash_below_boundary [OF s(1,2) s(3) [symmetric] refl refl]
  note t1 = t [of example_config "0xF800", THEN conjunct1, THEN mp, OF e]
  note t2 = t [of example_config "0x0100", THEN conjunct2, THEN conjunct1, THEN mp, OF g]
  note t3 = t [of example_config "0x0100", THEN conjunct2, THEN conjunct2, THEN mp, OF r]
  have w: "unat (4 :: word16) div 2 = Suc (Suc 0)" by simp
  from t1 t2 t3 show ?thesis
    unfolding w s by simp
qed

text \<open>
  The boundary is not tested again inside the loop. On the concrete device
  (\<open>BOOTLOADER_ADDRESS\<close> \<open>0xF800\<close>) load the word address \<open>0x7BFF\<close>, the byte address
  \<open>0xF7FE\<close>, and program four bytes: the second word write of the loop is performed
  with the address \<open>0xF800\<close>.
\<close>

theorem page_fill_across_boundary_counterexample:
  "spm_log (dev (run example_config example_start
      (map Received (frame 1 [CMD_LOAD_ADDRESS, 0, 0, 0x7B, 0xFF]
                     @ frame 2 ([CMD_PROGRAM_FLASH_ISP, 0x00, 0x04] @ [0, 0, 0, 0, 0, 0, 0]
                                @ [0xAA, 0xBB, 0xCC, 0xDD])))))
     = [PageErase 0xF7FE, PageFill 0xF7FE 0xBBAA, PageFill 0xF800 0xDDCC, PageWrite 0xF7FE]
   \<and> BOOTLOADER_ADDRESS example_config = 0xF800"
proof -
  define body :: "byte list" where
    "body = [CMD_PROGRAM_FLASH_ISP, 0x00, 0x04] @ [0, 0, 0, 0, 0, 0, 0] @ [0xAA, 0xBB, 0xCC, 0xDD]"
  define s1 where "s1 = run example_config example_start
      (map Received (frame 1 [CMD_LOAD_ADDRESS, 0, 0, ucast (drop_bit 8 (0x7BFF :: word16)),
                              ucast (0x7BFF :: word16)]))"
  have st: "seqNum example_start = 0" by (simp add: example_start_def initial_def)
  note l = exchange_load_address [OF example_start_listening _ s1_def]
  have l1: "listening s1" and q1: "seqNum s1 = 2" and a1: "address s1 = 0xF7FE"
    and d1: "dev s1 = dev example_start"
    using l by simp_all
  define r where "r = received 2 body s1"
  have len: "length (msgBuffer s1) = 285" "fault s1 = None" "isLeave s1 = 0"
    using l1 by (simp_all add: listening_def)
  have r: "msgBuffer r ! 0 = CMD_PROGRAM_FLASH_ISP" "fault r = None" "address r = 0xF7FE"
    "size_field (msgBuffer r) = 4" "isLeave r = 0" "length (msgBuffer r) = 285"
    "spm_log (dev r) = []"
    using len a1 d1
    by (simp_all add: r_def received_def body_def size_field_def example_start_def initial_def
        example_device_def)
  have w: "words_at (msgBuffer r) 10 (Suc (Suc 0)) = [0xBBAA, 0xDDCC]"
    unfolding words_at_Suc by (simp add: words_at_def r_def received_def body_def)
  have g: "address r < APP_END example_config"
    by (simp add: r APP_END_def example_config_def)
  have u: "unat (4 :: word16) = 2 * Suc (Suc 0)" "unat (4 :: word16) \<le> 275" by simp_all
  define d where "d = dispatch example_config r"
  note pd = program_flash_dispatch [OF r(1,2) g r(4) [symmetric] u, folded d_def]
  have ok: "fault d = None" "isLeave d = 0" "unat (msgLength d) \<le> 285"
    using r by (simp_all add: pd)
  have b: "body \<noteq> []" "length body \<le> 285" by (simp_all add: body_def)
  have sq: "(2 :: byte) = 1 \<or> 2 = seqNum s1" using q1 by simp
  have dd: "d = dispatch example_config (received 2 body s1)" by (simp add: d_def r_def)
  note e = exchange_listening [OF l1 sq b dd ok refl]
  have "spm_log (dev d)
      = [PageErase 0xF7FE, PageFill 0xF7FE 0xBBAA, PageFill 0xF800 0xDDCC, PageWrite 0xF7FE]"
    by (simp add: pd w r boot_page_write_def boot_page_fill_def boot_page_erase_def)
  then have "spm_log (dev (run example_config s1 (map Received (frame 2 body))))
      = [PageErase 0xF7FE, PageFill 0xF7FE 0xBBAA, PageFill 0xF800 0xDDCC, PageWrite 0xF7FE]"
    using e(4) by simp
  moreover have "ucast (drop_bit 8 (0x7BFF :: word16)) = (0x7B :: byte)"
    "ucast (0x7BFF :: word16) = (0xFF :: byte)"
    by simp_all
  then have "run example_config example_start
      (map Received (frame 1 [CMD_LOAD_ADDRESS, 0, 0, 0x7B, 0xFF] @ frame 2 body))
      = run example_config s1 (map Received (frame 2 body))"
    unfolding s1_def by (simp only: run_append map_append)
  ultimately show ?thesis
    by (simp add: body_def example_config_def)
qed

subsection \<open>Programming flash, then reading it back\<close>

lemma byte_FF_and: "(0xFF :: byte) AND x = x"
proof -
  have "(0xFF :: byte) = - 1" by simp
  then show ?thesis by (simp only: and.left_neutral)
qed

lemma program_flash_page:
  assumes "0 < SPM_PAGESIZE cfg" and "SPM_PAGESIZE cfg dvd unat (BOOTLOADER_ADDRESS cfg)"
    and "fault s = None" and "length (msgBuffer s) = 285"
    and "address s < BOOTLOADER_ADDRESS cfg" and "unat (address s) mod SPM_PAGESIZE cfg = 0"
    and "even (unat (address s))"
    and "sz = size_field (msgBuffer s)" and "unat sz = 2 * Suc n"
    and "unat sz \<le> SPM_PAGESIZE cfg" and "unat sz \<le> 275"
  shows "fault (program_flash cfg s) = None"
    and "address (program_flash cfg s) = address s + sz"
    and "msgBuffer (program_flash cfg s) = msgBuffer s"
    and "isLeave (program_flash cfg s) = isLeave s"
    and "flash_bytes (dev (program_flash cfg s)) (address s) (unat sz)
         = take (unat sz) (drop 10 (msgBuffer s))"
proof -
  define P where "P = SPM_PAGESIZE cfg"
  define A where "A = address s"
  define B where "B = BOOTLOADER_ADDRESS cfg"
  from assms(2) obtain k where k: "unat B = P * k" by (auto simp: dvd_def P_def B_def)
  from assms(6) obtain i where i: "unat A = P * i" by (auto simp: mod_eq_0_iff_dvd dvd_def P_def A_def)
  have AB: "unat A < unat B" using assms(5) by (simp add: word_less_nat_alt A_def B_def)
  have P2: "2 \<le> P" using assms(9,10) by (simp add: P_def)
  have "P * i < P * k" using AB i k by simp
  then have "i < k" by simp
  then have "P * (i + 1) \<le> P * k" by (simp del: mult_Suc_right)
  then have room: "unat A + P \<le> unat B" using i k by simp
  have "unat B < 2 ^ LENGTH(16)" by (rule unsigned_less)
  then have Bl: "unat B < 65536" by simp
  have "unat (APP_END cfg) = unat B - 1"
  proof -
    have "B \<noteq> 0" using AB by (auto simp: B_def)
    then show ?thesis by (simp add: APP_END_def B_def unat_minus_one)
  qed
  then have guard: "address s < APP_END cfg"
    using room P2 by (simp add: word_less_nat_alt A_def)
  define ws where "ws = words_at (msgBuffer s) 10 (Suc n)"
  define hw1 where "hw1 = boot_page_erase cfg A (dev s)"
  define hw2 where "hw2 = page_fills cfg A ws hw1"
  define s1 where "s1 = s\<lparr>dev := hw1\<rparr>"
  have loop: "write_flash_loop cfg 10 sz s1 = s1\<lparr>dev := hw2, address := A + sz\<rparr>"
    using write_flash_loop_fills [OF assms(9), of 10 cfg s1] assms(11)
    by (simp add: s1_def hw2_def ws_def A_def)
  have pf: "program_flash cfg s = s\<lparr>dev := boot_page_write cfg A hw2, address := A + sz\<rparr>"
    using guard assms(3)
    by (simp add: program_flash_def Let_def assms(8) [symmetric] hw1_def [symmetric] A_def [symmetric]
        s1_def [symmetric] loop) (simp add: s1_def)
  show "fault (program_flash cfg s) = None" using assms(3) by (simp add: pf)
  show "address (program_flash cfg s) = address s + sz" by (simp add: pf A_def)
  show "msgBuffer (program_flash cfg s) = msgBuffer s" by (simp add: pf)
  show "isLeave (program_flash cfg s) = isLeave s" by (simp add: pf)
  have byte: "flash (boot_page_write cfg A hw2) (A + of_nat j) = msgBuffer s ! (10 + j)"
    if j: "j < unat sz" for j
  proof -
    let ?x = "A + of_nat j :: word16"
    have jP: "j < P" using j assms(10) by (simp add: P_def)
    have nw: "unat A + j < 65536" using room jP Bl by simp
    have "0 < P" using P2 by simp
    note po = page_of_offset [OF this _ jP nw]
    have am: "unat A mod P = 0" using assms(6) by (simp add: A_def P_def)
    have pg: "page_of cfg ?x = page_of cfg A"
      unfolding page_of_def P_def [symmetric] using po(1) [OF am] .
    have bw: "buffer_word cfg ?x = j div 2"
      unfolding buffer_word_def P_def [symmetric] using po(2) [OF am] by simp
    have ux: "unat ?x = unat A + j" using nw by (simp add: unat_word_ariths unat_of_nat)
    have ev: "even (unat ?x) \<longleftrightarrow> even j"
      unfolding ux using assms(7) by (simp add: A_def)
    have f2: "flash hw2 ?x = 0xFF"
      using pg by (simp add: hw2_def hw1_def boot_page_erase_def)
    have jd: "j div 2 < Suc n" using j assms(9) by simp
    have "page_buffer hw2 (j div 2) = ws ! (j div 2)"
    proof -
      have "page_buffer (page_fills cfg A ws hw1) (j div 2) =
         (if 0 \<le> j div 2 \<and> j div 2 < 0 + length ws then ws ! (j div 2 - 0)
          else page_buffer hw1 (j div 2))"
      proof (rule page_fills_buffer)
        show "unat A mod SPM_PAGESIZE cfg = 2 * 0" using am by (simp add: P_def)
        show "2 * (0 + length ws) \<le> SPM_PAGESIZE cfg"
          using assms(9,10) by (simp add: ws_def)
        show "unat A + 2 * length ws < 65536"
          using assms(9,10) room Bl by (simp add: ws_def P_def)
      qed
      then show ?thesis using jd by (simp add: hw2_def ws_def)
    qed
    also have "\<dots> = push_bit 8 (ucast (msgBuffer s ! (10 + 2 * (j div 2) + 1)))
        OR ucast (msgBuffer s ! (10 + 2 * (j div 2)))"
      unfolding ws_def using jd by (rule nth_words_at)
    finally have pb: "page_buffer hw2 (j div 2) = push_bit 8 (ucast (msgBuffer s ! (10 + 2 * (j div 2) + 1)))
        OR ucast (msgBuffer s ! (10 + 2 * (j div 2)))" .
    have bb: "buffer_byte cfg hw2 ?x = msgBuffer s ! (10 + j)"
    proof (cases "even j")
      case True
      then have "2 * (j div 2) = j" by simp
      then show ?thesis
        unfolding buffer_byte_def Let_def bw pb using True ev
        by (simp only: if_True low_byte_of_word)
    next
      case False
      then have "2 * (j div 2) + 1 = j" by (simp add: odd_two_times_div_two_succ)
      then have "10 + 2 * (j div 2) + 1 = 10 + j" by simp
      then show ?thesis
        unfolding buffer_byte_def Let_def bw pb using False ev
        by (simp only: if_False high_byte_of_word)
    qed
    show ?thesis
      using pg by (simp add: boot_page_write_def f2 bb byte_FF_and)
  qed
  show "flash_bytes (dev (program_flash cfg s)) (address s) (unat sz)
         = take (unat sz) (drop 10 (msgBuffer s))"
  proof (rule nth_equalityI)
    show "length (flash_bytes (dev (program_flash cfg s)) (address s) (unat sz))
        = length (take (unat sz) (drop 10 (msgBuffer s)))"
      using assms(4,11) by simp
  next
    fix j assume "j < length (flash_bytes (dev (program_flash cfg s)) (address s) (unat sz))"
    then have j: "j < unat sz" by simp
    have "flash_bytes (dev (program_flash cfg s)) (address s) (unat sz) ! j
        = flash (boot_page_write cfg A hw2) (A + of_nat j)"
      unfolding nth_flash_bytes [OF j] by (simp add: pf A_def)
    also have "\<dots> = msgBuffer s ! (10 + j)" using j by (rule byte)
    also have "\<dots> = take (unat sz) (drop 10 (msgBuffer s)) ! j"
      using j assms(4,11) by simp
    finally show "flash_bytes (dev (program_flash cfg s)) (address s) (unat sz) ! j
        = take (unat sz) (drop 10 (msgBuffer s)) ! j" .
  qed
qed


lemma exchange_program_flash:
  assumes "SPM_PAGESIZE cfg dvd unat (BOOTLOADER_ADDRESS cfg)"
    and "listening s" and "seq = 1 \<or> seq = seqNum s"
    and "address s < BOOTLOADER_ADDRESS cfg" and "unat (address s) mod SPM_PAGESIZE cfg = 0"
    and "even (unat (address s))"
    and "length hdr = 7" and "length data = unat sz"
    and "even (unat sz)" and "2 \<le> unat sz" and "unat sz \<le> SPM_PAGESIZE cfg"
    and "unat sz \<le> 275"
    and "s' = run cfg s (map Received
           (frame seq ([CMD_PROGRAM_FLASH_ISP, ucast (drop_bit 8 sz), ucast (sz :: word16)]
                       @ hdr @ data)))"
  shows "listening s'" and "seqNum s' = seq + 1" and "address s' = address s + sz"
    and "flash_bytes (dev s') (address s) (unat sz) = data"
    and "tx s' = tx s @ frame seq [CMD_PROGRAM_FLASH_ISP, STATUS_CMD_OK]"
proof -
  define body where "body = [CMD_PROGRAM_FLASH_ISP, ucast (drop_bit 8 sz), ucast sz] @ hdr @ data"
  define r where "r = received seq body s"
  define d where "d = dispatch cfg r"
  have lb: "length body = 10 + unat sz" using assms(7,8) by (simp add: body_def)
  have l: "length (msgBuffer s) = 285" "fault s = None" "isLeave s = 0"
    using assms(2) by (simp_all add: listening_def)
  have mb: "msgBuffer r = body @ drop (length body) (msgBuffer s)"
    by (simp add: r_def received_def)
  have r: "msgBuffer r ! 0 = CMD_PROGRAM_FLASH_ISP" "length (msgBuffer r) = 285" "fault r = None"
    "isLeave r = 0" "address r = address s"
    using l lb assms(12) by (simp_all add: r_def received_def) (simp add: body_def)
  have "msgBuffer r ! 1 = ucast (drop_bit 8 sz)" "msgBuffer r ! 2 = ucast sz"
    by (simp_all add: mb body_def)
  then have sf: "sz = size_field (msgBuffer r)"
    unfolding size_field_def by (simp only: word16_of_bytes)
  have dt: "take (unat sz) (drop 10 (msgBuffer r)) = data"
    using assms(7,8) by (simp add: mb body_def)
  from assms(9,10) obtain n where n: "unat sz = 2 * Suc n"
    by (metis Suc_pred dvd_def mult_2 mult_is_0 not_numeral_le_zero zero_less_iff_neq_zero
        zero_neq_numeral)
  have P: "0 < SPM_PAGESIZE cfg" using assms(10,11) by simp
  note pf = program_flash_page [OF P assms(1) r(3) r(2) assms(4,5,6) [folded r(5)] sf n assms(11,12)]
  have d: "d = (program_flash cfg r)\<lparr>msgLength := 2,
      msgBuffer := (msgBuffer r)[1 := STATUS_CMD_OK]\<rparr>"
    unfolding d_def dispatch_program_flash [OF r(1)]
    using pf(1) by (simp add: cmd_program_def Let_def r(1) pf(3))
  have b: "body \<noteq> []" "length body \<le> 285" using lb assms(12) by (simp_all add: body_def)
  have dd: "d = dispatch cfg (received seq body s)" by (simp add: d_def r_def)
  have ok: "fault d = None" "isLeave d = 0" "unat (msgLength d) \<le> 285"
    using pf(1,4) r(4) by (simp_all add: d)
  have s': "s' = run cfg s (map Received (frame seq body))"
    by (simp add: assms(13) body_def)
  note e = exchange_listening [OF assms(2,3) b dd ok s']
  have tk: "take (unat (msgLength d)) (msgBuffer d) = [CMD_PROGRAM_FLASH_ISP, STATUS_CMD_OK]"
    using r(1,2) by (simp add: d take_2_update)
  show "listening s'" by (rule e)
  show "seqNum s' = seq + 1" by (rule e)
  show "address s' = address s + sz" using e(3) pf(2) r(5) by (simp add: d)
  have "dev s' = dev (program_flash cfg r)" using e(4) by (simp add: d)
  then show "flash_bytes (dev s') (address s) (unat sz) = data"
    using pf(5) dt r(5) by simp
  show "tx s' = tx s @ frame seq [CMD_PROGRAM_FLASH_ISP, STATUS_CMD_OK]"
    using e(5) unfolding tk .
qed

lemma twice_half_even:
  assumes "even (unat (a :: word16))"
  shows "2 * drop_bit 1 a = a"
proof -
  have h: "unat (drop_bit 1 a) = unat a div 2"
    by (simp add: drop_bit_eq_div unat_div)
  have "unat a < 2 ^ LENGTH(16)" by (rule unsigned_less)
  then have lt: "unat a < 65536" by simp
  have "unat (2 * drop_bit 1 a) = (2 * unat (drop_bit 1 a)) mod 65536"
    by (simp add: unat_word_ariths)
  then have "unat (2 * drop_bit 1 a) = (2 * (unat a div 2)) mod 65536"
    unfolding h .
  also have "2 * (unat a div 2) = unat a" using assms by simp
  finally have "unat (2 * drop_bit 1 a) = unat a" using lt by simp
  then show ?thesis by (simp add: word_unat_eq_iff)
qed

text \<open>
  Claim C6. The device's pages are at most 256 bytes (so a page of data and the ten bytes
  before it fit the buffer), of even size, and \<open>BOOTLOADER_ADDRESS\<close> is a page boundary.
  For a page-aligned byte address \<open>A\<close> below \<open>BOOTLOADER_ADDRESS\<close> and \<open>N\<close> data bytes,
  \<open>N\<close> even and between 2 and the page size: after the messages load-address for
  \<open>A\<close> (word address \<open>A / 2\<close>), program-flash with the \<open>N\<close> data bytes, load-address
  for \<open>A\<close> again and read-flash of size \<open>N\<close>, the answer to the read is the command
  byte, status-OK, exactly the \<open>N\<close> data bytes, and status-OK.
\<close>

theorem program_then_read_flash:
  assumes "SPM_PAGESIZE cfg dvd unat (BOOTLOADER_ADDRESS cfg)" and "even (SPM_PAGESIZE cfg)"
    and "SPM_PAGESIZE cfg \<le> 256"
    and "listening s"
    and "q1 = 1 \<or> q1 = seqNum s" and "q2 = 1 \<or> q2 = q1 + 1"
    and "q3 = 1 \<or> q3 = q2 + 1" and "q4 = 1 \<or> q4 = q3 + 1"
    and "A < BOOTLOADER_ADDRESS cfg" and "unat A mod SPM_PAGESIZE cfg = 0"
    and "length data = unat sz" and "even (unat sz)" and "2 \<le> unat sz"
    and "unat sz \<le> SPM_PAGESIZE cfg" and "length hdr = 7"
    and "s1 = run cfg s (map Received (frame q1
           [CMD_LOAD_ADDRESS, b1, b2, ucast (drop_bit 8 (drop_bit 1 A)), ucast (drop_bit 1 A)]))"
    and "s2 = run cfg s1 (map Received (frame q2
           ([CMD_PROGRAM_FLASH_ISP, ucast (drop_bit 8 sz), ucast (sz :: word16)] @ hdr @ data)))"
    and "s3 = run cfg s2 (map Received (frame q3
           [CMD_LOAD_ADDRESS, b3, b4, ucast (drop_bit 8 (drop_bit 1 A)), ucast (drop_bit 1 A)]))"
    and "s4 = run cfg s3 (map Received (frame q4
           [CMD_READ_FLASH_ISP, ucast (drop_bit 8 sz), ucast sz, x]))"
  shows "tx s4 = tx s3 @ frame q4 ([CMD_READ_FLASH_ISP, STATUS_CMD_OK] @ data @ [STATUS_CMD_OK])"
proof -
  from assms(10) obtain k where "unat A = SPM_PAGESIZE cfg * k"
    by (auto simp: mod_eq_0_iff_dvd dvd_def)
  then have evA: "even (unat A)" using assms(2) by simp
  have A: "2 * drop_bit 1 A = A" using evA by (rule twice_half_even)
  have sz1: "unat sz \<le> 275" and sz2: "unat sz \<le> 282" using assms(3,14) by simp_all
  note a = exchange_load_address [OF assms(4,5,16)]
  have q2: "q2 = 1 \<or> q2 = seqNum s1" using assms(6) a(2) by simp
  have a1: "address s1 < BOOTLOADER_ADDRESS cfg" "unat (address s1) mod SPM_PAGESIZE cfg = 0"
    "even (unat (address s1))"
    using assms(9,10) evA unfolding a(3) A by simp_all
  note b = exchange_program_flash [OF assms(1) a(1) q2 a1 assms(15,11,12,13,14) sz1 assms(17)]
  have q3: "q3 = 1 \<or> q3 = seqNum s2" using assms(7) b(2) by simp
  note c = exchange_load_address [OF b(1) q3 assms(18)]
  have q4: "q4 = 1 \<or> q4 = seqNum s3" using assms(8) c(2) by simp
  note d = exchange_read_flash [OF c(1) q4 assms(12,13) sz2 assms(19)]
  have "flash_bytes (dev s3) (address s3) (unat sz) = data"
    using b(4) unfolding c(3,4) a(3) A .
  then show ?thesis using d(5) by simp
qed


theorem program_then_read_flash_witness:
  "tx example_read_back =
     tx example_reloaded
     @ frame 4 [CMD_READ_FLASH_ISP, STATUS_CMD_OK, 0xAA, 0xBB, 0xCC, 0xDD, STATUS_CMD_OK]"
proof -
  have c: "SPM_PAGESIZE example_config dvd unat (BOOTLOADER_ADDRESS example_config)"
    "even (SPM_PAGESIZE example_config)" "SPM_PAGESIZE example_config \<le> 256"
    by (simp_all add: example_config_def)
  have q: "(1 :: byte) = 1 \<or> 1 = seqNum example_start" "(2 :: byte) = 1 \<or> 2 = (1 :: byte) + 1"
    "(3 :: byte) = 1 \<or> 3 = (2 :: byte) + 1" "(4 :: byte) = 1 \<or> 4 = (3 :: byte) + 1"
    by simp_all
  have a: "(0x0100 :: word16) < BOOTLOADER_ADDRESS example_config"
    "unat (0x0100 :: word16) mod SPM_PAGESIZE example_config = 0"
    by (simp_all add: example_config_def)
  have d: "length [0xAA, 0xBB, 0xCC, 0xDD :: byte] = unat (4 :: word16)" "even (unat (4 :: word16))"
    "2 \<le> unat (4 :: word16)" "unat (4 :: word16) \<le> SPM_PAGESIZE example_config"
    "length [0, 0, 0, 0, 0, 0, 0 :: byte] = 7"
    by (simp_all add: example_config_def)
  have w: "ucast (drop_bit 8 (drop_bit 1 (0x0100 :: word16))) = (0 :: byte)"
    "ucast (drop_bit 1 (0x0100 :: word16)) = (0x80 :: byte)"
    "ucast (drop_bit 8 (4 :: word16)) = (0 :: byte)" "ucast (4 :: word16) = (4 :: byte)"
    by simp_all
  have s1: "example_loaded = run example_config example_start (map Received (frame 1
           [CMD_LOAD_ADDRESS, 0, 0, ucast (drop_bit 8 (drop_bit 1 (0x0100 :: word16))),
            ucast (drop_bit 1 (0x0100 :: word16))]))"
    unfolding w by (simp add: example_loaded_def)
  have s2: "example_programmed = run example_config example_loaded (map Received (frame 2
           ([CMD_PROGRAM_FLASH_ISP, ucast (drop_bit 8 (4 :: word16)), ucast (4 :: word16)]
            @ [0, 0, 0, 0, 0, 0, 0] @ [0xAA, 0xBB, 0xCC, 0xDD])))"
    unfolding w by (simp add: example_programmed_def)
  have s3: "example_reloaded = run example_config example_programmed (map Received (frame 3
           [CMD_LOAD_ADDRESS, 0, 0, ucast (drop_bit 8 (drop_bit 1 (0x0100 :: word16))),
            ucast (drop_bit 1 (0x0100 :: word16))]))"
    unfolding w by (simp add: example_reloaded_def)
  have s4: "example_read_back = run example_config example_reloaded (map Received (frame 4
           [CMD_READ_FLASH_ISP, ucast (drop_bit 8 (4 :: word16)), ucast (4 :: word16), 0x20]))"
    unfolding w by (simp add: example_read_back_def)
  note t = program_then_read_flash [OF c example_start_listening q a d s1 s2 s3 s4]
  then show ?thesis by simp
qed

subsection \<open>The size of a transfer\<close>









































subsection \<open>The timeout byte\<close>

text \<open>
  Claim C10. The byte \<open>0x2F\<close> that \<open>recchar\<close> returns after a timeout is an ordinary
  byte value. When the state machine waits for a start marker and the received byte is
  \<open>0x2F\<close>, whether the timeout produced it or the wire carried it, the command switch
  sets \<open>isLeave\<close> to 2, nothing is sent, and the main loop has ended: no later byte is
  read.
\<close>

theorem timeout_sentinel_ends_session:
  assumes "fault s = None" and "isLeave s = 0" and "msgParseState s = ST_START"
    and "length (msgBuffer s) = 285"
    and "ev = TimedOut \<or> ev = Received 0x2F"
  shows "isLeave (step cfg s ev) = 2 \<and> tx (step cfg s ev) = tx s
         \<and> run cfg (step cfg s ev) evs = step cfg s ev"
proof -
  from assms(5) have c: "recchar ev = CMD_PROGRAMMER_TIMEOUT"
    by (auto simp: CMD_PROGRAMMER_TIMEOUT_def)
  define s1 where "s1 = parse_byte s (recchar ev)"
  have s1: "s1 = s\<lparr>msgBuffer := (msgBuffer s)[0 := CMD_PROGRAMMER_TIMEOUT],
                    msgParseState := ST_PROCESS\<rparr>"
    using assms(3) c
    by (simp add: s1_def parse_byte_def CMD_PROGRAMMER_TIMEOUT_def MESSAGE_START_def)
  have cmd: "msgBuffer s1 ! 0 = CMD_PROGRAMMER_TIMEOUT"
    using assms(4) by (simp add: s1)
  have f1: "fault s1 = None" and st1: "msgParseState s1 = ST_PROCESS"
    using assms(1) by (simp_all add: s1)
  have d: "dispatch cfg s1 = s1\<lparr>isLeave := 2\<rparr>"
    unfolding dispatch_def Let_def cmd
    by (simp add: command_defs CMD_PROGRAMMER_TIMEOUT_def)
  have p: "process cfg s1 = s1\<lparr>isLeave := 2\<rparr>"
    unfolding process_def d using f1 by (simp add: send_answer_def)
  have "step cfg s ev = process cfg s1"
    using assms(1,2) f1 st1 by (simp add: step_def Let_def s1_def [symmetric])
  then have st: "step cfg s ev = s1\<lparr>isLeave := 2\<rparr>"
    by (simp add: p)
  have "isLeave (step cfg s ev) \<noteq> 0" by (simp add: st)
  then have "run cfg (step cfg s ev) evs = step cfg s ev"
    by (simp add: run_stopped)
  then show ?thesis by (simp add: st s1)
qed

theorem timeout_sentinel_ends_session_witness:
  "isLeave (step example_config example_start (Received 0x2F)) = 2
   \<and> tx (step example_config example_start (Received 0x2F)) = tx example_start
   \<and> run example_config (step example_config example_start (Received 0x2F)) [Received 0x1B]
       = step example_config example_start (Received 0x2F)"
proof -
  note timeout_sentinel_ends_session [OF example_start_simps,
      of "Received 0x2F" example_config "[Received 0x1B]"]
  then show ?thesis by simp
qed

end
